theory Spec2Isabelle
  imports Complex_Main "HOL-Library.Word" "HOL-Library.Sublist"
begin

section \<open>Bytes, C strings and the platform\<close>

text \<open>
  The server of \<^verbatim>\<open>src/NetServer.c\<close> reads request lines from one TCP connection at a
  time into a fixed buffer, answers each line and closes the connection. Bytes are
  \<^typ>\<open>char\<close>, a byte array is a \<^typ>\<open>string\<close>.
\<close>

abbreviation NUL :: char where "NUL \<equiv> CHR 0x00"
abbreviation NL :: char where "NL \<equiv> CHR 0x0A"
abbreviation COMMA :: char where "COMMA \<equiv> CHR '',''"

text \<open>The C string that starts a byte array: the bytes before its first zero byte.\<close>

definition c_str :: "string \<Rightarrow> string" where
  "c_str s = takeWhile (\<lambda>c. c \<noteq> NUL) s"

text \<open>
  A \<^verbatim>\<open>double\<close>. The server never computes with one: it parses them, compares them
  with constants and prints them. Comparison of two finite doubles is exact, so a finite
  double is the real number it denotes, except for the two zeros: \<open>Finite 0\<close> is +0.0
  and \<open>NegZero\<close> is -0.0, which compare as equal and print differently.
\<close>

datatype double = Finite real | NegZero | PosInf | NegInf | NaN

fun d_le :: "double \<Rightarrow> double \<Rightarrow> bool" where
  "d_le NaN _ = False"
| "d_le _ NaN = False"
| "d_le NegInf _ = True"
| "d_le _ PosInf = True"
| "d_le PosInf _ = False"
| "d_le _ NegInf = False"
| "d_le (Finite a) (Finite b) = (a \<le> b)"
| "d_le (Finite a) NegZero = (a \<le> 0)"
| "d_le NegZero (Finite b) = (0 \<le> b)"
| "d_le NegZero NegZero = True"

definition d_ge :: "double \<Rightarrow> double \<Rightarrow> bool" where
  "d_ge a b = d_le b a"

text \<open>
  The types of the proteus library, whose headers are not part of the sources: the
  fields are the ones \<^verbatim>\<open>NetServer.c\<close> reads.
\<close>

record proteus_GeoPos =
  lat :: double
  lon :: double

record proteus_Vector =
  angle :: double
  mag :: double

record proteus_Weather =
  wind :: proteus_Vector
  windGust :: double

record proteus_OceanData =
  current :: proteus_Vector
  ice :: double

record proteus_WaveData =
  waveHeight :: double

text \<open>
  What the server calls and does not define: \<^verbatim>\<open>strtod\<close> and \<^verbatim>\<open>strtol\<close> of the C
  library (called with a null end pointer, so only the value comes back), the rendering
  of a double by the \<^verbatim>\<open>%f\<close> conversion of \<^verbatim>\<open>snprintf\<close>, and the three queries of
  the proteus library. The two queries that return \<^verbatim>\<open>bool\<close> return it beside the data
  they filled in. Every function of the model takes them as the parameter \<open>L\<close>.
\<close>

record platform =
  strtod :: "string \<Rightarrow> double"
  strtol :: "string \<Rightarrow> int"
  fmt_f :: "double \<Rightarrow> string"
  proteus_Weather_get :: "proteus_GeoPos \<Rightarrow> proteus_Weather"
  proteus_Ocean_get :: "proteus_GeoPos \<Rightarrow> bool \<times> proteus_OceanData"
  proteus_Wave_get :: "proteus_GeoPos \<Rightarrow> bool \<times> proteus_WaveData"

section \<open>The request codec\<close>

datatype req_type =
  REQ_TYPE_INVALID
| REQ_TYPE_GET_WIND
| REQ_TYPE_GET_WIND_GUST
| REQ_TYPE_GET_OCEAN_CURRENT
| REQ_TYPE_GET_SEA_ICE
| REQ_TYPE_GET_WAVE_HEIGHT

definition REQ_STR_GET_WIND :: string where "REQ_STR_GET_WIND = ''wind''"
definition REQ_STR_GET_WIND_GUST :: string where "REQ_STR_GET_WIND_GUST = ''wind_gust''"
definition REQ_STR_GET_OCEAN_CURRENT :: string where "REQ_STR_GET_OCEAN_CURRENT = ''ocean_current''"
definition REQ_STR_GET_SEA_ICE :: string where "REQ_STR_GET_SEA_ICE = ''sea_ice''"
definition REQ_STR_GET_WAVE_HEIGHT :: string where "REQ_STR_GET_WAVE_HEIGHT = ''wave_height''"

datatype req_val = REQ_VAL_NONE | REQ_VAL_INT | REQ_VAL_DOUBLE

definition REQ_VALS_NONE :: "req_val list" where
  "REQ_VALS_NONE = [REQ_VAL_NONE, REQ_VAL_NONE]"

definition REQ_VALS_LAT_LON :: "req_val list" where
  "REQ_VALS_LAT_LON = [REQ_VAL_DOUBLE, REQ_VAL_DOUBLE]"

text \<open>
  The union \<^verbatim>\<open>ReqValue\<close>, with the member that was written; \<open>ReqUnset\<close> is an element
  of the local array \<^verbatim>\<open>values\<close> that was never assigned.
\<close>

datatype ReqValue = ReqUnset | ReqInt int | ReqDouble double

definition INVALID_DOUBLE_VALUE :: double where
  "INVALID_DOUBLE_VALUE = Finite (- 999)"

definition MSG_BUF_SIZE :: nat where
  "MSG_BUF_SIZE = 1024"

text \<open>
  \<^verbatim>\<open>strncmp(a, b, n)\<close> on two C strings given by their bytes before the terminator: at
  most \<open>n\<close> bytes are compared, and the terminator of the shorter string counts as the
  byte 0. The server only tests the result against 0.
\<close>

fun strncmp :: "string \<Rightarrow> string \<Rightarrow> nat \<Rightarrow> int" where
  "strncmp a b 0 = 0"
| "strncmp [] [] (Suc n) = 0"
| "strncmp [] (y # ys) (Suc n) = - int (of_char y)"
| "strncmp (x # xs) [] (Suc n) = int (of_char x)"
| "strncmp (x # xs) (y # ys) (Suc n) =
     (if x = y then strncmp xs ys n else int (of_char x) - int (of_char y))"

text \<open>
  \<^verbatim>\<open>strtok_r(str, ",", &t)\<close> on the bytes of a C string: leading commas are skipped;
  if nothing is left there is no token (\<^verbatim>\<open>NULL\<close>); otherwise the token runs to the next
  comma or to the end, and the save pointer \<open>t\<close> stands behind that comma. A later call
  \<^verbatim>\<open>strtok_r(0, ",", &t)\<close> is the same function applied to \<open>t\<close>. The zero bytes it
  writes over the commas lie inside the request line, which the caller discards.
\<close>

definition strtok_r :: "string \<Rightarrow> (string \<times> string) option" where
  "strtok_r str =
     (let s = dropWhile (\<lambda>c. c = COMMA) str in
      if s = [] then None
      else Some (takeWhile (\<lambda>c. c \<noteq> COMMA) s, drop 1 (dropWhile (\<lambda>c. c \<noteq> COMMA) s)))"

definition getReqType :: "string \<Rightarrow> req_type" where
  "getReqType s =
     (if strncmp REQ_STR_GET_WIND s (length s) = 0 then REQ_TYPE_GET_WIND
      else if strncmp REQ_STR_GET_WIND_GUST s (length s) = 0 then REQ_TYPE_GET_WIND_GUST
      else if strncmp REQ_STR_GET_OCEAN_CURRENT s (length s) = 0 then REQ_TYPE_GET_OCEAN_CURRENT
      else if strncmp REQ_STR_GET_SEA_ICE s (length s) = 0 then REQ_TYPE_GET_SEA_ICE
      else if strncmp REQ_STR_GET_WAVE_HEIGHT s (length s) = 0 then REQ_TYPE_GET_WAVE_HEIGHT
      else REQ_TYPE_INVALID)"

fun getReqExpectedValueTypes :: "req_type \<Rightarrow> req_val list" where
  "getReqExpectedValueTypes REQ_TYPE_INVALID = REQ_VALS_NONE"
| "getReqExpectedValueTypes _ = REQ_VALS_LAT_LON"

text \<open>
  Reading the member \<^verbatim>\<open>d\<close> of a \<^verbatim>\<open>ReqValue\<close>. Only a value written as a double has
  one to read; the five request types expect two doubles, so the other cases are never
  reached (lemma \<open>parse_values_doubles\<close> below).
\<close>

fun val_d :: "ReqValue \<Rightarrow> double option" where
  "val_d (ReqDouble x) = Some x"
| "val_d _ = None"

definition in_range :: "double \<Rightarrow> double \<Rightarrow> bool" where
  "in_range la lo =
     (d_ge la (Finite (- 90)) \<and> d_le la (Finite 90) \<and>
      d_ge lo (Finite (- 180)) \<and> d_le lo (Finite 180))"

fun areValuesValidForReqType :: "req_type \<Rightarrow> ReqValue list \<Rightarrow> bool" where
  "areValuesValidForReqType REQ_TYPE_INVALID values = True"
| "areValuesValidForReqType _ values =
     (case (val_d (values ! 0), val_d (values ! 1)) of
        (Some la, Some lo) \<Rightarrow> in_range la lo
      | _ \<Rightarrow> False)"

text \<open>
  The loop of \<^verbatim>\<open>handleMessage\<close> over the expected value types: one token per expected
  value, converted by \<^verbatim>\<open>strtol\<close> or \<^verbatim>\<open>strtod\<close>; \<open>None\<close> where the source jumps to
  \<^verbatim>\<open>fail\<close> for a missing token.
\<close>

fun parse_values :: "platform \<Rightarrow> req_val list \<Rightarrow> string \<Rightarrow> ReqValue list option" where
  "parse_values L [] t = Some []"
| "parse_values L (REQ_VAL_NONE # vals) t =
     map_option (\<lambda>values. ReqUnset # values) (parse_values L vals t)"
| "parse_values L (v # vals) t =
     (case strtok_r t of
        None \<Rightarrow> None
      | Some (s, t') \<Rightarrow>
          map_option
            (\<lambda>values. (if v = REQ_VAL_INT then ReqInt (strtol L s) else ReqDouble (strtod L s)) # values)
            (parse_values L vals t'))"

text \<open>
  \<^verbatim>\<open>snprintf(buf, bufSize, ...)\<close>: of the formatted text at most \<open>bufSize - 1\<close> bytes are
  stored, followed by the terminator. \<open>printf_line\<close> is the text of the formats
  \<^verbatim>\<open>"%s,%f,%f,%f\n"\<close> and \<^verbatim>\<open>"%s,%f,%f,%f,%f\n"\<close>: the string, then a comma and the
  \<^verbatim>\<open>%f\<close> rendering for each double, then the newline.
\<close>

definition snprintf :: "nat \<Rightarrow> string \<Rightarrow> string" where
  "snprintf bufSize text = take (bufSize - 1) text"

definition printf_line :: "platform \<Rightarrow> string \<Rightarrow> double list \<Rightarrow> string" where
  "printf_line L kw ds = kw @ concat (map (\<lambda>d. COMMA # fmt_f L d) ds) @ [NL]"

definition populateWindResponse :: "platform \<Rightarrow> nat \<Rightarrow> proteus_GeoPos \<Rightarrow> bool \<Rightarrow> string" where
  "populateWindResponse L bufSize pos gust =
     (let wx = proteus_Weather_get L pos in
      snprintf bufSize
        (printf_line L (if gust then REQ_STR_GET_WIND_GUST else REQ_STR_GET_WIND)
           [lat pos, lon pos, angle (wind wx), if gust then windGust wx else mag (wind wx)]))"

definition populateOceanResponse :: "platform \<Rightarrow> nat \<Rightarrow> proteus_GeoPos \<Rightarrow> bool \<Rightarrow> string" where
  "populateOceanResponse L bufSize pos seaIce =
     (let (valid, od) = proteus_Ocean_get L pos in
      if seaIce then
        snprintf bufSize
          (printf_line L REQ_STR_GET_SEA_ICE
             [lat pos, lon pos, if valid then ice od else INVALID_DOUBLE_VALUE])
      else
        snprintf bufSize
          (printf_line L REQ_STR_GET_OCEAN_CURRENT
             [lat pos, lon pos,
              if valid then angle (current od) else INVALID_DOUBLE_VALUE,
              if valid then mag (current od) else INVALID_DOUBLE_VALUE]))"

definition populateWaveResponse :: "platform \<Rightarrow> nat \<Rightarrow> proteus_GeoPos \<Rightarrow> string" where
  "populateWaveResponse L bufSize pos =
     (let (valid, wd) = proteus_Wave_get L pos in
      snprintf bufSize
        (printf_line L REQ_STR_GET_WAVE_HEIGHT
           [lat pos, lon pos, if valid then waveHeight wd else INVALID_DOUBLE_VALUE]))"

text \<open>
  The first part of \<^verbatim>\<open>handleMessage\<close>, up to the \<^verbatim>\<open>switch\<close> that fills the local
  \<^verbatim>\<open>buf\<close>: the result is the text stored in \<^verbatim>\<open>buf\<close>, or \<open>None\<close> wherever the source
  jumps to \<^verbatim>\<open>fail\<close>.
\<close>

fun populate :: "platform \<Rightarrow> req_type \<Rightarrow> proteus_GeoPos \<Rightarrow> string option" where
  "populate L REQ_TYPE_GET_WIND pos = Some (populateWindResponse L MSG_BUF_SIZE pos False)"
| "populate L REQ_TYPE_GET_WIND_GUST pos = Some (populateWindResponse L MSG_BUF_SIZE pos True)"
| "populate L REQ_TYPE_GET_OCEAN_CURRENT pos = Some (populateOceanResponse L MSG_BUF_SIZE pos False)"
| "populate L REQ_TYPE_GET_SEA_ICE pos = Some (populateOceanResponse L MSG_BUF_SIZE pos True)"
| "populate L REQ_TYPE_GET_WAVE_HEIGHT pos = Some (populateWaveResponse L MSG_BUF_SIZE pos)"
| "populate L REQ_TYPE_INVALID pos = None"

definition handleMessage_buf :: "platform \<Rightarrow> string \<Rightarrow> string option" where
  "handleMessage_buf L reqStr =
     (case strtok_r reqStr of
        None \<Rightarrow> None
      | Some (s, t) \<Rightarrow>
          let reqType = getReqType s in
          if reqType = REQ_TYPE_INVALID then None
          else
            let vals = getReqExpectedValueTypes reqType in
            case parse_values L vals t of
              None \<Rightarrow> None
            | Some values \<Rightarrow>
                if \<not> areValuesValidForReqType reqType values then None
                else
                  (case (val_d (values ! 0), val_d (values ! 1)) of
                     (Some la, Some lo) \<Rightarrow> populate L reqType \<lparr>lat = la, lon = lo\<rparr>
                   | _ \<Rightarrow> None))"

section \<open>Writing to the client\<close>

text \<open>
  What the calls of \<^verbatim>\<open>write\<close> on the connection return is the client's and the
  kernel's choice. The list \<open>ws\<close> gives the outcome of the next calls, one entry per
  call: \<open>WriteErr\<close> is a negative result, \<open>Wrote n\<close> accepts at most \<open>n\<close> of the bytes
  offered; once the list is used up every call accepts all it is offered.
\<close>

datatype write_result = WriteErr | Wrote nat

fun write_fd :: "write_result list \<Rightarrow> string \<Rightarrow> int \<times> string \<times> write_result list" where
  "write_fd [] bytes = (int (length bytes), bytes, [])"
| "write_fd (WriteErr # ws) bytes = (- 1, [], ws)"
| "write_fd (Wrote n # ws) bytes = (int (min n (length bytes)), take n bytes, ws)"

text \<open>
  The write loop of \<^verbatim>\<open>handleMessage\<close>. \<open>rest\<close> is \<^verbatim>\<open>buf + wt\<close>, the part of the
  response not yet written, so \<^verbatim>\<open>wt == bl\<close> says that the call took all of \<open>rest\<close>.
  The result is the return value and the bytes of each call that did not fail.
\<close>

fun write_loop :: "write_result list \<Rightarrow> string \<Rightarrow> int \<times> string list \<times> write_result list" where
  "write_loop [] rest = (0, [rest], [])"
| "write_loop (WriteErr # ws) rest = (- 1, [], ws)"
| "write_loop (Wrote n # ws) rest =
     (if length rest \<le> n then (0, [rest], ws)
      else (case write_loop ws (drop n rest) of
              (rc, out, ws') \<Rightarrow> (rc, take n rest # out, ws')))"

text \<open>
  \<^verbatim>\<open>handleMessage\<close>: the return value, the bytes written by each call of \<^verbatim>\<open>write\<close>,
  and the outcomes left for later calls. At the label \<^verbatim>\<open>fail\<close> the source returns
  \<open>-1\<close> on both branches.
\<close>

definition handleMessage ::
  "platform \<Rightarrow> write_result list \<Rightarrow> string \<Rightarrow> int \<times> string list \<times> write_result list" where
  "handleMessage L ws reqStr =
     (case handleMessage_buf L reqStr of
        Some buf \<Rightarrow> write_loop ws (c_str buf)
      | None \<Rightarrow>
          (case write_fd ws (''error'' @ [NL]) of
             (wb, bytes, ws') \<Rightarrow>
               if wb \<noteq> 6 then (- 1, if wb < 0 then [] else [bytes], ws')
               else (- 1, [bytes], ws')))"

section \<open>The connection and its client\<close>

text \<open>
  The statistics counters \<^verbatim>\<open>_counter\<close> are an array of \<^verbatim>\<open>unsigned int\<close>, indexed by
  the \<^verbatim>\<open>COUNTER_\<close> constants; \<^verbatim>\<open>_counter[k]++\<close> wraps around.
\<close>

definition COUNTER_ACCEPT :: nat where "COUNTER_ACCEPT = 0"
definition COUNTER_ACCEPT_FAIL :: nat where "COUNTER_ACCEPT_FAIL = 1"
definition COUNTER_READ :: nat where "COUNTER_READ = 2"
definition COUNTER_READ_FAIL :: nat where "COUNTER_READ_FAIL = 3"
definition COUNTER_DATA_TOO_LONG :: nat where "COUNTER_DATA_TOO_LONG = 4"
definition COUNTER_MESSAGE :: nat where "COUNTER_MESSAGE = 5"
definition COUNTER_MESSAGE_FAIL :: nat where "COUNTER_MESSAGE_FAIL = 6"

definition counter_inc :: "nat \<Rightarrow> 32 word list \<Rightarrow> 32 word list" where
  "counter_inc k c = c[k := c ! k + 1]"

text \<open>
  The client of a connection. \<open>pending\<close> are the bytes it still sends, in order.
  \<open>sched\<close> says what the next polls of the socket find, one entry per poll:
  \<open>NotReady\<close>, nothing has arrived (\<^verbatim>\<open>select\<close> returns 0, a \<^verbatim>\<open>read\<close> waits for the
  next entry); \<open>Ready n\<close>, the socket is readable and a \<^verbatim>\<open>read\<close> returns at most
  \<open>n + 1\<close> of the pending bytes, or 0, the end of the stream, when none is pending;
  \<open>ReadErr\<close>, the \<^verbatim>\<open>read\<close> fails. Once \<open>sched\<close> is used up all pending bytes are
  there to read, and behind the last byte the client either closes its side
  (\<open>closes\<close>, the \<^verbatim>\<open>read\<close> returns 0) or stays silent with the connection open.
  \<open>wsched\<close> are the outcomes of the calls of \<^verbatim>\<open>write\<close>.

  The trace records what the server does on its connections: the request line handed to
  \<^verbatim>\<open>handleMessage\<close>, the bytes of each \<^verbatim>\<open>write\<close> that did not fail, and
  \<^verbatim>\<open>close(fd)\<close>. The diagnostics that \<^verbatim>\<open>ERRLOG\<close> prints to the standard error stream
  are left out.
\<close>

datatype rd = NotReady | Ready nat | ReadErr

datatype event = Dispatch string | Sent string | Closed

record server =
  buf :: string
  readyBytes :: nat
  eos :: bool
  counter :: "32 word list"
  pending :: string
  sched :: "rd list"
  closes :: bool
  wsched :: "write_result list"
  trace :: "event list"

text \<open>\<^verbatim>\<open>select(fd + 1, &rfds, 0, 0, &tv) != 0\<close> with a zero timeout.\<close>

fun select_fd :: "server \<Rightarrow> bool \<times> server" where
  "select_fd s =
     (case sched s of
        [] \<Rightarrow> (pending s \<noteq> [] \<or> closes s, s)
      | NotReady # r \<Rightarrow> (False, s\<lparr>sched := r\<rparr>)
      | Ready n # r \<Rightarrow> (True, s)
      | ReadErr # r \<Rightarrow> (True, s))"

text \<open>
  \<^verbatim>\<open>read(fd, buf + readyBytes, count)\<close>: the result and the bytes read, or \<open>None\<close> when
  the call never returns (nothing pending, and the client neither sends nor closes).
\<close>

fun read_fd :: "server \<Rightarrow> nat \<Rightarrow> (int \<times> string) option \<times> server" where
  "read_fd s count =
     (case dropWhile (\<lambda>e. e = NotReady) (sched s) of
        ReadErr # r \<Rightarrow> (Some (- 1, []), s\<lparr>sched := r\<rparr>)
      | Ready n # r \<Rightarrow>
          (let k = min (Suc n) (min count (length (pending s))) in
           (Some (int k, take k (pending s)), s\<lparr>sched := r, pending := drop k (pending s)\<rparr>))
      | _ \<Rightarrow>
          (if pending s = [] \<and> \<not> closes s then (None, s\<lparr>sched := []\<rparr>)
           else
             (let k = min count (length (pending s)) in
              (Some (int k, take k (pending s)), s\<lparr>sched := [], pending := drop k (pending s)\<rparr>))))"

text \<open>Storing bytes at an offset of a byte array, and \<^verbatim>\<open>memmove(buf + dst, buf + src, n)\<close>.\<close>

definition store :: "string \<Rightarrow> nat \<Rightarrow> string \<Rightarrow> string" where
  "store b off bytes = take off b @ bytes @ drop (off + length bytes) b"

definition memmove :: "string \<Rightarrow> nat \<Rightarrow> nat \<Rightarrow> nat \<Rightarrow> string" where
  "memmove b dst src n = take dst b @ take n (drop src b) @ drop (dst + n) b"

section \<open>The request loop\<close>

text \<open>
  The scan for the end of the next request: \<open>n\<close> is \<^verbatim>\<open>rb + readyBytes\<close>, and at the
  loop test \<^verbatim>\<open>s\<close> points at \<^verbatim>\<open>buf[i]\<close>. The source tests \<^verbatim>\<open>*s != 0\<close> before
  \<^verbatim>\<open>i < rb + readyBytes\<close>; when \<open>n\<close> is the size of the buffer and \<open>i\<close> reaches it, the
  byte read lies behind the buffer, and whatever it is the second test ends the loop.
\<close>

function scan_newline :: "string \<Rightarrow> nat \<Rightarrow> nat \<Rightarrow> nat \<times> bool" where
  "scan_newline b n i =
     (if b ! i \<noteq> NUL \<and> i < n then
        (if b ! i = NL then (Suc i, True) else scan_newline b n (Suc i))
      else (i, False))"
  by pat_completeness auto
termination
  by (relation "measure (\<lambda>(b, n, i). n - i)") auto

declare scan_newline.simps [simp del]

text \<open>
  How an iteration of the request loop can leave the loop. The last two are not exits
  of the source: \<open>Blocked\<close> is a \<^verbatim>\<open>read\<close> that never returns, \<open>Spinning\<close> an iteration
  that ends in \<^verbatim>\<open>continue\<close> with the server and its client exactly as they were when it
  began, so that every later iteration repeats it.
\<close>

datatype loop_exit =
  DataTooLong | ReadFailed | EndOfStream | MessageFailed | Drained | Blocked | Spinning

definition quiet :: "server \<Rightarrow> bool" where
  "quiet s = (sched s = [] \<and> pending s = [] \<and> \<not> closes s)"

text \<open>
  The part of an iteration that reads: the result is \<^verbatim>\<open>rb\<close>, or the exit taken.
\<close>

definition read_phase :: "server \<Rightarrow> server \<times> (loop_exit + nat)" where
  "read_phase s =
     (if \<not> eos s then
        (case select_fd s of
           (ready, s1) \<Rightarrow>
             if ready \<or> readyBytes s1 = 0 then
               (case read_fd s1 (MSG_BUF_SIZE - readyBytes s1) of
                  (None, s2) \<Rightarrow> (s2, Inl Blocked)
                | (Some (rb, bytes), s2) \<Rightarrow>
                    let s3 = s2\<lparr>buf := store (buf s2) (readyBytes s2) bytes,
                                counter := counter_inc COUNTER_READ (counter s2)\<rparr>
                    in if rb < 0 then
                         (s3\<lparr>counter := counter_inc COUNTER_READ_FAIL (counter s3)\<rparr>, Inl ReadFailed)
                       else if rb = 0 then (s3\<lparr>eos := True\<rparr>, Inr 0)
                       else (s3, Inr (nat rb)))
             else (s1, Inr 0))
      else (s, Inr 0))"

text \<open>
  The part of an iteration behind a newline found at position \<open>i\<close> (counted from 1):
  the newline becomes the terminator, the C string at the start of the buffer goes to
  \<^verbatim>\<open>handleMessage\<close>, and if that returns 0 the rest of the buffer moves to the front.
\<close>

definition dispatch :: "platform \<Rightarrow> server \<Rightarrow> nat \<Rightarrow> server \<times> loop_exit option" where
  "dispatch L s i =
     (let s1 = s\<lparr>buf := (buf s)[i - 1 := NUL],
                 counter := counter_inc COUNTER_MESSAGE (counter s)\<rparr>;
          reqStr = c_str (buf s1)
      in case handleMessage L (wsched s1) reqStr of
           (rc, out, ws') \<Rightarrow>
             let s2 = s1\<lparr>wsched := ws', trace := trace s1 @ Dispatch reqStr # map Sent out\<rparr>
             in if rc \<noteq> 0 then
                  (s2\<lparr>counter := counter_inc COUNTER_MESSAGE_FAIL (counter s2)\<rparr>, Some MessageFailed)
                else
                  let s3 = s2\<lparr>buf := memmove (buf s2) 0 i (MSG_BUF_SIZE - i),
                              readyBytes := readyBytes s2 - i\<rparr>
                  in if eos s3 \<and> readyBytes s3 = 0 then (s3, Some Drained) else (s3, None))"

text \<open>One iteration of the request loop: the state behind it, and the exit if it took one.\<close>

definition request_iter :: "platform \<Rightarrow> server \<Rightarrow> server \<times> loop_exit option" where
  "request_iter L s =
     (if readyBytes s = MSG_BUF_SIZE then
        (s\<lparr>counter := counter_inc COUNTER_DATA_TOO_LONG (counter s)\<rparr>, Some DataTooLong)
      else
        (case read_phase s of
           (s1, Inl e) \<Rightarrow> (s1, Some e)
         | (s1, Inr rb) \<Rightarrow>
             (case scan_newline (buf s1) (rb + readyBytes s1) 0 of
                (i, foundNewline) \<Rightarrow>
                  let s2 = s1\<lparr>readyBytes := readyBytes s1 + rb\<rparr>
                  in if \<not> foundNewline then
                       (if eos s2 then (s2, Some EndOfStream)
                        else if quiet s then (s2, Some Spinning)
                        else (s2, None))
                     else dispatch L s2 i)))"

text \<open>
  The request loop runs iterations until one takes an exit. It ends: an iteration
  that goes on has used up an entry of \<open>sched\<close>, or read pending bytes, or seen the end
  of the stream, or moved a request out of the buffer.
\<close>

lemma scan_newline_found:
  "scan_newline b n j = (i, True) \<Longrightarrow> j < i \<and> i \<le> n"
proof (induction b n j rule: scan_newline.induct)
  case (1 b n i')
  then show ?case
    by (subst (asm) (2) scan_newline.simps) (auto split: if_splits)
qed

lemma length_dropWhile_tl:
  "dropWhile P xs = y # ys \<Longrightarrow> length ys < length xs"
  by (metis length_dropWhile_le length_Cons less_Suc_eq_le not_less_eq_eq linorder_not_less)

definition env_order :: "(server \<times> server) set" where
  "env_order = measures [\<lambda>s. length (sched s), \<lambda>s. length (pending s), \<lambda>s. if eos s then 0 else 1]"

lemma read_fd_progress:
  assumes "read_fd s count = (Some (rb, bytes), s')"
  shows "readyBytes s' = readyBytes s \<and> eos s' = eos s \<and> length (sched s') \<le> length (sched s)
     \<and> length (pending s') \<le> length (pending s)
     \<and> (rb > 0 \<longrightarrow> (length (sched s') < length (sched s) \<or> length (pending s') < length (pending s)))
     \<and> (rb < 0 \<longrightarrow> length (sched s') < length (sched s))"
  using assms
  by (auto split: list.splits rd.splits if_splits simp: Let_def dest: length_dropWhile_tl)

lemma select_fd_cases:
  assumes "select_fd s = (ready, s1)"
  shows "(s1 = s \<and> (sched s = [] \<longrightarrow> ready = (pending s \<noteq> [] \<or> closes s)) \<and> (sched s \<noteq> [] \<longrightarrow> ready))
       \<or> (\<not> ready \<and> (\<exists>r. sched s = NotReady # r \<and> s1 = s\<lparr>sched := r\<rparr>))"
  using assms by (auto split: list.splits rd.splits)

lemma read_phase_progress:
  assumes "read_phase s = (s1, Inr rb)"
  shows "readyBytes s1 = readyBytes s \<and>
     ((s1, s) \<in> env_order \<or> (s1 = s \<and> rb = 0 \<and> (eos s \<or> quiet s)))"
proof (cases "eos s")
  case True
  with assms show ?thesis by (simp add: read_phase_def)
next
  case False
  obtain ready sa where sel: "select_fd s = (ready, sa)" by (cases "select_fd s")
  have sa: "readyBytes sa = readyBytes s" "eos sa = eos s" "pending sa = pending s"
      "length (sched sa) \<le> length (sched s)"
    using select_fd_cases[OF sel] by auto
  show ?thesis
  proof (cases "ready \<or> readyBytes sa = 0")
    case rd: True
    obtain res sb where rf: "read_fd sa (MSG_BUF_SIZE - readyBytes sa) = (res, sb)"
      by (cases "read_fd sa (MSG_BUF_SIZE - readyBytes sa)")
    from assms False sel rd rf obtain k bytes where res: "res = Some (k, bytes)"
      by (cases res) (auto simp: read_phase_def)
    note pr = read_fd_progress[OF rf[unfolded res]]
    from assms False sel rd rf res have nn: "\<not> k < 0"
      by (auto simp: read_phase_def Let_def split: if_splits)
    show ?thesis
    proof (cases "k = 0")
      case True
      with assms False sel rd rf res
      have s1: "s1 = sb\<lparr>buf := store (buf sb) (readyBytes sb) bytes,
                 counter := counter_inc COUNTER_READ (counter sb), eos := True\<rparr>"
        by (auto simp: read_phase_def Let_def)
      show ?thesis using pr sa False unfolding s1 env_order_def by auto
    next
      case kn: False
      with nn have kp: "k > 0" by simp
      with assms False sel rd rf res
      have s1: "s1 = sb\<lparr>buf := store (buf sb) (readyBytes sb) bytes,
                 counter := counter_inc COUNTER_READ (counter sb)\<rparr>"
        by (auto simp: read_phase_def Let_def)
      show ?thesis using pr sa False kp unfolding s1 env_order_def by auto
    qed
  next
    case nr: False
    with assms False sel have s1: "s1 = sa" "rb = 0"
      by (auto simp: read_phase_def)
    from select_fd_cases[OF sel] nr show ?thesis
      unfolding s1 env_order_def quiet_def using False by auto
  qed
qed


lemma dispatch_env:
  assumes "dispatch L s i = (s', x)"
  shows "sched s' = sched s \<and> pending s' = pending s \<and> eos s' = eos s \<and> closes s' = closes s
     \<and> (x = None \<longrightarrow> readyBytes s' = readyBytes s - i)"
  using assms unfolding dispatch_def
  by (auto simp: Let_def split: prod.splits if_splits)

definition loop_order :: "(server \<times> server) set" where
  "loop_order = measures [\<lambda>s. length (sched s), \<lambda>s. length (pending s),
     \<lambda>s. if eos s then 0 else 1, readyBytes]"

lemma env_order_loop_order:
  assumes "(s1, s) \<in> env_order" "sched s' = sched s1" "pending s' = pending s1" "eos s' = eos s1"
  shows "(s', s) \<in> loop_order"
  using assms unfolding env_order_def loop_order_def by auto

lemma request_iter_progress:
  assumes "request_iter L s = (s', None)"
  shows "(s', s) \<in> loop_order"
proof -
  from assms have nf: "readyBytes s \<noteq> MSG_BUF_SIZE"
    by (auto simp: request_iter_def split: if_splits)
  obtain s1 r where rp: "read_phase s = (s1, r)" by (cases "read_phase s")
  from assms nf rp obtain rb where r: "r = Inr rb"
    by (cases r) (auto simp: request_iter_def)
  note pr = read_phase_progress[OF rp[unfolded r]]
  obtain i found where sc: "scan_newline (buf s1) (rb + readyBytes s1) 0 = (i, found)"
    by (cases "scan_newline (buf s1) (rb + readyBytes s1) 0")
  define s2 where "s2 = s1\<lparr>readyBytes := readyBytes s1 + rb\<rparr>"
  have s2: "sched s2 = sched s1" "pending s2 = pending s1" "eos s2 = eos s1"
    "readyBytes s2 = readyBytes s1 + rb"
    by (simp_all add: s2_def)
  show ?thesis
  proof (cases found)
    case False
    with assms nf rp r sc have s': "s' = s2" and ne: "\<not> eos s2" and nq: "\<not> quiet s"
      by (auto simp: request_iter_def Let_def s2_def split: if_splits)
    from pr ne nq s2 have "(s1, s) \<in> env_order" by auto
    then show ?thesis unfolding s' using s2 by (intro env_order_loop_order) auto
  next
    case True
    with assms nf rp r sc have d: "dispatch L s2 i = (s', None)"
      by (auto simp: request_iter_def Let_def s2_def)
    note de = dispatch_env[OF d]
    from scan_newline_found sc True have i: "0 < i" "i \<le> rb + readyBytes s1" by auto
    from pr consider "(s1, s) \<in> env_order" | "s1 = s" "rb = 0" by auto
    then show ?thesis
    proof cases
      case 1
      then show ?thesis using de s2 by (intro env_order_loop_order) auto
    next
      case 2
      then show ?thesis using de s2 i unfolding loop_order_def by auto
    qed
  qed
qed

function request_loop :: "platform \<Rightarrow> server \<Rightarrow> server \<times> loop_exit" where
  "request_loop L s =
     (case request_iter L s of
        (s', Some e) \<Rightarrow> (s', e)
      | (s', None) \<Rightarrow> request_loop L s')"
  by pat_completeness auto
termination
  apply (relation "inv_image loop_order snd")
   apply (simp add: loop_order_def)
  subgoal for L s x y
    using request_iter_progress[of L s x] by simp
  done

declare request_loop.simps [simp del]

text \<open>
  \<^verbatim>\<open>close(fd)\<close> follows the request loop; it is not reached when the loop never ends.
\<close>

definition close_fd :: "server \<Rightarrow> server" where
  "close_fd s = s\<lparr>trace := trace s @ [Closed]\<rparr>"

definition serve_from :: "platform \<Rightarrow> server \<Rightarrow> server \<times> loop_exit" where
  "serve_from L s =
     (case request_loop L s of
        (s', e) \<Rightarrow> if e = Blocked \<or> e = Spinning then (s', e) else (close_fd s', e))"

text \<open>
  One iteration of the accept loop, on what \<^verbatim>\<open>accept\<close> returns: a failure, or a
  connection with its client. \<^verbatim>\<open>readyBytes\<close> and \<^verbatim>\<open>eos\<close> are initialised for each
  connection; \<^verbatim>\<open>buf\<close> and the counters are kept.
\<close>

datatype accept_result =
  AcceptFailed
| Accepted string "rd list" bool "write_result list"

definition conn_start ::
  "server \<Rightarrow> string \<Rightarrow> rd list \<Rightarrow> bool \<Rightarrow> write_result list \<Rightarrow> server" where
  "conn_start s p sc cl ws =
     s\<lparr>readyBytes := 0, eos := False, pending := p, sched := sc, closes := cl, wsched := ws\<rparr>"

definition accept_iter :: "platform \<Rightarrow> server \<Rightarrow> accept_result \<Rightarrow> server \<times> loop_exit option" where
  "accept_iter L s a =
     (let s1 = s\<lparr>counter := counter_inc COUNTER_ACCEPT (counter s)\<rparr> in
      case a of
        AcceptFailed \<Rightarrow> (s1\<lparr>counter := counter_inc COUNTER_ACCEPT_FAIL (counter s1)\<rparr>, None)
      | Accepted p sc cl ws \<Rightarrow>
          (case serve_from L (conn_start s1 p sc cl ws) of (s', e) \<Rightarrow> (s', Some e)))"

text \<open>
  The accept loop over the results of the successive calls of \<^verbatim>\<open>accept\<close>; behind a
  connection whose request loop never ends nothing is accepted any more.
\<close>

fun server_loop :: "platform \<Rightarrow> server \<Rightarrow> accept_result list \<Rightarrow> server" where
  "server_loop L s [] = s"
| "server_loop L s (a # as) =
     (case accept_iter L s a of
        (s', Some Blocked) \<Rightarrow> s'
      | (s', Some Spinning) \<Rightarrow> s'
      | (s', _) \<Rightarrow> server_loop L s' as)"

section \<open>The framing the specification describes\<close>

text \<open>
  The bytes of the buffer that count, and the bytes of the client not yet handed to
  \<^verbatim>\<open>handleMessage\<close>: those in the buffer, then those still to be read.
\<close>

definition valid :: "server \<Rightarrow> string" where
  "valid s = take (readyBytes s) (buf s)"

definition unread :: "server \<Rightarrow> string" where
  "unread s = valid s @ pending s"

text \<open>A newline that the scan reaches: one with no zero byte before it.\<close>

definition has_line :: "string \<Rightarrow> bool" where
  "has_line bytes = (NL \<in> set (c_str bytes))"

text \<open>
  The state of a connection at the head of the request loop: the buffer has its size,
  \<^verbatim>\<open>readyBytes\<close> is within it, the end of the stream has been seen only when nothing
  is pending, and a full buffer is one the scan found no request in.
\<close>

definition conn_inv :: "server \<Rightarrow> bool" where
  "conn_inv s =
     (length (buf s) = MSG_BUF_SIZE \<and> readyBytes s \<le> MSG_BUF_SIZE \<and>
      (eos s \<longrightarrow> pending s = []) \<and>
      (readyBytes s = MSG_BUF_SIZE \<longrightarrow> \<not> has_line (valid s)))"

text \<open>
  The specification of the framer, on the bytes of the client in the order they arrive:
  while a newline with no zero byte before it lies within the first \<open>MSG_BUF_SIZE\<close>
  bytes, the bytes before the first newline are the next request; it is handed to
  \<^verbatim>\<open>handleMessage\<close>, whose writes all come before the next request is taken, and the
  bytes behind that newline are framed next if the request was handled. How the bytes
  are split into reads plays no part in it. The result is the trace of the connection
  up to its \<^verbatim>\<open>close\<close>, and the exits the request loop may take when no read fails.
\<close>

function frame :: "platform \<Rightarrow> write_result list \<Rightarrow> string \<Rightarrow> event list \<times> loop_exit set" where
  "frame L ws bytes =
     (if has_line (take MSG_BUF_SIZE bytes) then
        (let line = takeWhile (\<lambda>c. c \<noteq> NL) bytes in
         case handleMessage L ws line of
           (rc, out, ws') \<Rightarrow>
             if rc = 0 then
               (case frame L ws' (drop (Suc (length line)) bytes) of
                  (tr, ex) \<Rightarrow> (Dispatch line # map Sent out @ tr, ex))
             else (Dispatch line # map Sent out, {MessageFailed}))
      else
        ([], if MSG_BUF_SIZE \<le> length bytes then {DataTooLong}
             else if bytes = [] then {EndOfStream, Drained, Blocked}
             else {EndOfStream, Spinning}))"
  by pat_completeness auto
termination
proof (relation "measure (\<lambda>(L, ws, bytes). length bytes)")
  show "wf (measure (\<lambda>(L, ws, bytes). length bytes))" by simp
next
  fix L :: platform and ws :: "write_result list" and bytes :: string
    and x :: string and xa :: "int \<times> string list \<times> write_result list"
    and xb :: int and y :: "string list \<times> write_result list"
    and xc :: "string list" and ya :: "write_result list"
  assume "has_line (take MSG_BUF_SIZE bytes)"
  then have "bytes \<noteq> []" by (auto simp: has_line_def c_str_def)
  then show "((L, ya, drop (Suc (length x)) bytes), L, ws, bytes)
       \<in> measure (\<lambda>(L, ws, bytes). length bytes)"
    by simp
qed

declare frame.simps [simp del]

section \<open>The wire format the specification describes\<close>

text \<open>
  The keyword of a request type, the number of comma-separated fields of its response
  line, and the numbers that follow the position in it: the angle and the magnitude
  (for a gust, the gust magnitude) of the wind; the angle and the magnitude of the
  current; the ice value; the wave height; each one the sentinel when the query found no
  data.
\<close>

fun keyword :: "req_type \<Rightarrow> string" where
  "keyword REQ_TYPE_GET_WIND = REQ_STR_GET_WIND"
| "keyword REQ_TYPE_GET_WIND_GUST = REQ_STR_GET_WIND_GUST"
| "keyword REQ_TYPE_GET_OCEAN_CURRENT = REQ_STR_GET_OCEAN_CURRENT"
| "keyword REQ_TYPE_GET_SEA_ICE = REQ_STR_GET_SEA_ICE"
| "keyword REQ_TYPE_GET_WAVE_HEIGHT = REQ_STR_GET_WAVE_HEIGHT"
| "keyword REQ_TYPE_INVALID = []"

fun arity :: "req_type \<Rightarrow> nat" where
  "arity REQ_TYPE_GET_WIND = 5"
| "arity REQ_TYPE_GET_WIND_GUST = 5"
| "arity REQ_TYPE_GET_OCEAN_CURRENT = 5"
| "arity REQ_TYPE_GET_SEA_ICE = 4"
| "arity REQ_TYPE_GET_WAVE_HEIGHT = 4"
| "arity REQ_TYPE_INVALID = 0"

fun data_fields :: "platform \<Rightarrow> req_type \<Rightarrow> proteus_GeoPos \<Rightarrow> double list" where
  "data_fields L REQ_TYPE_GET_WIND pos =
     (let wx = proteus_Weather_get L pos in [angle (wind wx), mag (wind wx)])"
| "data_fields L REQ_TYPE_GET_WIND_GUST pos =
     (let wx = proteus_Weather_get L pos in [angle (wind wx), windGust wx])"
| "data_fields L REQ_TYPE_GET_OCEAN_CURRENT pos =
     (case proteus_Ocean_get L pos of
        (True, od) \<Rightarrow> [angle (current od), mag (current od)]
      | (False, od) \<Rightarrow> [INVALID_DOUBLE_VALUE, INVALID_DOUBLE_VALUE])"
| "data_fields L REQ_TYPE_GET_SEA_ICE pos =
     (case proteus_Ocean_get L pos of
        (True, od) \<Rightarrow> [ice od]
      | (False, od) \<Rightarrow> [INVALID_DOUBLE_VALUE])"
| "data_fields L REQ_TYPE_GET_WAVE_HEIGHT pos =
     (case proteus_Wave_get L pos of
        (True, wd) \<Rightarrow> [waveHeight wd]
      | (False, wd) \<Rightarrow> [INVALID_DOUBLE_VALUE])"
| "data_fields L REQ_TYPE_INVALID pos = []"

definition field_count :: "string \<Rightarrow> nat" where
  "field_count s = Suc (count_list s COMMA)"

text \<open>
  A rendering of a number as the \<^verbatim>\<open>%f\<close> conversion produces it: at most \<open>n\<close> bytes,
  none of them a comma, a newline or a zero byte. A double of magnitude at most 180
  takes at most 11 bytes (\<^verbatim>\<open>-180.000000\<close>), any double at most 317.
\<close>

definition plain :: "nat \<Rightarrow> string \<Rightarrow> bool" where
  "plain n s = (length s \<le> n \<and> COMMA \<notin> set s \<and> NL \<notin> set s \<and> NUL \<notin> set s)"

section \<open>A platform to run the model on\<close>

text \<open>
  \<open>strtod_dec\<close> stands for \<^verbatim>\<open>strtod\<close> of the C library, which is not part of the
  sources. It reads blanks, a sign, digits, a point and digits, and gives the number
  written, with the sign kept on a zero; without a digit it gives +0. That is the value
  of \<^verbatim>\<open>strtod\<close> for a decimal literal without exponent whose value is a double, and
  for a token that starts with neither a number nor \<^verbatim>\<open>inf\<close> nor \<^verbatim>\<open>nan\<close>. Exponents,
  hexadecimal literals, \<^verbatim>\<open>inf\<close>, \<^verbatim>\<open>nan\<close>, white space other than the blank and the
  rounding of a decimal that is not a double are left out, and below the platform is run
  on no such token; the theorems on the codec hold for every \<open>strtod\<close>.
  \<open>printf_f\<close> is \<^verbatim>\<open>%f\<close>: six
  digits behind the point, rounded to nearest with ties to even. The queries are stubs:
  a constant wind, and ocean and wave data on the northern hemisphere only.
\<close>

definition is_digit :: "char \<Rightarrow> bool" where
  "is_digit c = (c \<in> set ''0123456789'')"

definition dec_val :: "string \<Rightarrow> nat" where
  "dec_val ds = foldl (\<lambda>a c. 10 * a + (of_char c - 48)) 0 ds"

definition strtod_dec :: "string \<Rightarrow> double" where
  "strtod_dec s =
     (let s1 = dropWhile (\<lambda>c. c = CHR '' '') s;
          s2 = (if take 1 s1 = ''-'' \<or> take 1 s1 = ''+'' then drop 1 s1 else s1);
          ip = takeWhile is_digit s2;
          s3 = dropWhile is_digit s2;
          fp = (if take 1 s3 = ''.'' then takeWhile is_digit (drop 1 s3) else [])
      in if ip = [] \<and> fp = [] then Finite 0
         else if dec_val ip = 0 \<and> dec_val fp = 0
           then (if take 1 s1 = ''-'' then NegZero else Finite 0)
         else Finite ((if take 1 s1 = ''-'' then - 1 else 1) *
                (real (dec_val ip) + real (dec_val fp) / 10 ^ length fp)))"

function dec_nat :: "nat \<Rightarrow> string" where
  "dec_nat n = (if n < 10 then [''0123456789'' ! n] else dec_nat (n div 10) @ [''0123456789'' ! (n mod 10)])"
  by pat_completeness auto
termination
  by (relation "measure id") auto

declare dec_nat.simps [simp del]

definition round_half_even :: "real \<Rightarrow> nat" where
  "round_half_even x =
     (let f = nat \<lfloor>x\<rfloor>; r = x - real f in
      if r < 1 / 2 then f else if 1 / 2 < r then Suc f else if even f then f else Suc f)"

definition printf_f :: "double \<Rightarrow> string" where
  "printf_f d =
     (case d of
        Finite r \<Rightarrow>
          (let n = round_half_even (\<bar>r\<bar> * 1000000); frac = dec_nat (n mod 1000000) in
           (if r < 0 then ''-'' else []) @ dec_nat (n div 1000000) @ ''.'' @
           drop (length frac) ''000000'' @ frac)
      | NegZero \<Rightarrow> ''-0.000000''
      | PosInf \<Rightarrow> ''inf''
      | NegInf \<Rightarrow> ''-inf''
      | NaN \<Rightarrow> ''nan'')"

definition test_platform :: platform where
  "test_platform =
     \<lparr>strtod = strtod_dec,
      strtol = (\<lambda>s. 0),
      fmt_f = printf_f,
      proteus_Weather_get =
        (\<lambda>pos. \<lparr>wind = \<lparr>angle = Finite 270, mag = Finite 5\<rparr>, windGust = Finite 8\<rparr>),
      proteus_Ocean_get =
        (\<lambda>pos. (d_le (Finite 0) (lat pos),
                \<lparr>current = \<lparr>angle = Finite 90, mag = Finite (1 / 2)\<rparr>, ice = Finite 0\<rparr>)),
      proteus_Wave_get = (\<lambda>pos. (d_le (Finite 0) (lat pos), \<lparr>waveHeight = Finite (3 / 2)\<rparr>))\<rparr>"

text \<open>
  A server between two connections, with a buffer of zero bytes and all counters 0.
\<close>

definition idle_server :: server where
  "idle_server =
     \<lparr>buf = replicate MSG_BUF_SIZE NUL, readyBytes = 0, eos = False,
      counter = [0, 0, 0, 0, 0, 0, 0], pending = [], sched = [], closes = True, wsched = [],
      trace = []\<rparr>"

section \<open>Lemmas on the codec\<close>

lemma of_char_zero: "(of_char c = (0::nat)) = (c = NUL)"
  by (cases c) (auto)

lemma strncmp_prefix:
  "NUL \<notin> set s \<Longrightarrow> (strncmp a s (length s) = 0) = prefix s a"
proof (induction s arbitrary: a)
  case Nil
  then show ?case by simp
next
  case (Cons y ys)
  then show ?case by (cases a) (auto simp: of_char_zero)
qed

lemma getReqType_keyword: "req \<noteq> REQ_TYPE_INVALID \<Longrightarrow> getReqType (keyword req) = req"
  by (cases req)
    (simp_all add: getReqType_def REQ_STR_GET_WIND_def REQ_STR_GET_WIND_GUST_def
      REQ_STR_GET_OCEAN_CURRENT_def REQ_STR_GET_SEA_ICE_def REQ_STR_GET_WAVE_HEIGHT_def)

lemma keyword_plain: "req \<noteq> REQ_TYPE_INVALID \<Longrightarrow>
   keyword req \<noteq> [] \<and> COMMA \<notin> set (keyword req) \<and> NL \<notin> set (keyword req)
   \<and> NUL \<notin> set (keyword req) \<and> length (keyword req) \<le> 13"
  by (cases req)
    (simp_all add: REQ_STR_GET_WIND_def REQ_STR_GET_WIND_GUST_def
      REQ_STR_GET_OCEAN_CURRENT_def REQ_STR_GET_SEA_ICE_def REQ_STR_GET_WAVE_HEIGHT_def)

lemma strtok_r_token:
  assumes "a \<noteq> []" "COMMA \<notin> set a"
  shows "strtok_r (a @ COMMA # rest) = Some (a, rest)" "strtok_r a = Some (a, [])"
proof -
  from assms obtain x xs where a: "a = x # xs" and x: "x \<noteq> COMMA" by (cases a) auto
  have a2: "takeWhile (\<lambda>c. c \<noteq> COMMA) a = a" "dropWhile (\<lambda>c. c \<noteq> COMMA) a = []"
    using assms by (auto simp: takeWhile_eq_all_conv dropWhile_eq_Nil_conv)
  have tw: "takeWhile (\<lambda>c. c \<noteq> COMMA) (a @ COMMA # rest) = a"
    using assms by (subst takeWhile_append2) auto
  have dw: "dropWhile (\<lambda>c. c \<noteq> COMMA) (a @ COMMA # rest) = COMMA # rest"
    using assms by (subst dropWhile_append2) auto
  show "strtok_r (a @ COMMA # rest) = Some (a, rest)"
    unfolding strtok_r_def using tw dw x by (simp add: a)
  have "dropWhile (\<lambda>c. c = COMMA) a = a" using x by (simp add: a)
  then show "strtok_r a = Some (a, [])"
    unfolding strtok_r_def using assms(1) by (simp add: Let_def a2)
qed

lemma parse_values_lat_lon:
  assumes "a \<noteq> []" "COMMA \<notin> set a" "b \<noteq> []" "COMMA \<notin> set b"
  shows "parse_values L REQ_VALS_LAT_LON (a @ COMMA # b)
     = Some [ReqDouble (strtod L a), ReqDouble (strtod L b)]"
  using assms by (simp add: REQ_VALS_LAT_LON_def strtok_r_token)

lemma handleMessage_buf_wellformed:
  assumes "req \<noteq> REQ_TYPE_INVALID" "a \<noteq> []" "COMMA \<notin> set a" "b \<noteq> []" "COMMA \<notin> set b"
  shows "handleMessage_buf L (keyword req @ COMMA # a @ COMMA # b) =
     (if in_range (strtod L a) (strtod L b)
      then populate L req \<lparr>lat = strtod L a, lon = strtod L b\<rparr> else None)"
proof -
  have tk: "strtok_r (keyword req @ COMMA # a @ COMMA # b) = Some (keyword req, a @ COMMA # b)"
    using keyword_plain[OF assms(1)] by (intro strtok_r_token) auto
  have ev: "getReqExpectedValueTypes req = REQ_VALS_LAT_LON"
    using assms(1) by (cases req) auto
  have av: "areValuesValidForReqType req [ReqDouble x, ReqDouble y] = in_range x y" for x y
    using assms(1) by (cases req) auto
  show ?thesis
    unfolding handleMessage_buf_def
    by (simp add: tk getReqType_keyword assms ev parse_values_lat_lon av)
qed

lemma populate_wire:
  "req \<noteq> REQ_TYPE_INVALID \<Longrightarrow> populate L req pos =
     Some (snprintf MSG_BUF_SIZE (printf_line L (keyword req) (lat pos # lon pos # data_fields L req pos)))"
  by (cases req)
    (auto simp: populateWindResponse_def populateOceanResponse_def populateWaveResponse_def
      Let_def split: prod.splits bool.splits)

lemma printf_line_props:
  assumes "\<forall>d\<in>set ds. COMMA \<notin> set (fmt_f L d) \<and> NL \<notin> set (fmt_f L d) \<and> NUL \<notin> set (fmt_f L d)"
    and "COMMA \<notin> set kw" "NL \<notin> set kw" "NUL \<notin> set kw"
  shows "count_list (printf_line L kw ds) COMMA = length ds"
    and "count_list (printf_line L kw ds) NL = 1"
    and "NUL \<notin> set (printf_line L kw ds)"
    and "last (printf_line L kw ds) = NL"
proof -
  have c: "count_list (concat (map (\<lambda>d. COMMA # fmt_f L d) ds)) COMMA = length ds"
    using assms(1) by (induction ds) (auto simp: count_list_0_iff)
  have n: "count_list (concat (map (\<lambda>d. COMMA # fmt_f L d) ds)) NL = 0"
    using assms(1) by (induction ds) (auto simp: count_list_0_iff)
  show "count_list (printf_line L kw ds) COMMA = length ds"
    using c assms(2) by (simp add: printf_line_def count_list_0_iff)
  show "count_list (printf_line L kw ds) NL = 1"
    using n assms(3) by (simp add: printf_line_def count_list_0_iff)
  show "NUL \<notin> set (printf_line L kw ds)"
    using assms by (auto simp: printf_line_def)
  show "last (printf_line L kw ds) = NL"
    by (simp add: printf_line_def)
qed

lemma length_printf_line:
  "length (printf_line L kw ds) = length kw + (\<Sum>d\<leftarrow>ds. Suc (length (fmt_f L d))) + 1"
  by (simp add: printf_line_def length_concat comp_def)


lemma dec_nat_small: "n < 10 \<Longrightarrow> dec_nat n = [''0123456789'' ! n]"
  by (simp add: dec_nat.simps)

lemma dec_nat_big: "10 \<le> n \<Longrightarrow> dec_nat n = dec_nat (n div 10) @ [''0123456789'' ! (n mod 10)]"
  by (subst dec_nat.simps) simp

lemmas test_defs = test_platform_def strtod_dec_def is_digit_def dec_val_def printf_f_def
  round_half_even_def dec_nat_small dec_nat_big

lemmas codec_defs = handleMessage_buf_def strtok_r_def getReqType_def in_range_def d_ge_def
  REQ_STR_GET_WIND_def REQ_STR_GET_WIND_GUST_def
  REQ_STR_GET_OCEAN_CURRENT_def REQ_STR_GET_SEA_ICE_def REQ_STR_GET_WAVE_HEIGHT_def
  REQ_VALS_LAT_LON_def populateWindResponse_def populateOceanResponse_def populateWaveResponse_def
  snprintf_def printf_line_def MSG_BUF_SIZE_def INVALID_DOUBLE_VALUE_def


lemma plain_fits:
  assumes "req \<noteq> REQ_TYPE_INVALID"
    and "plain 11 (fmt_f L x)" "plain 11 (fmt_f L y)"
    and "\<forall>d\<in>set ds. plain 317 (fmt_f L d)" "length ds \<le> 2"
  shows "length (printf_line L (keyword req) (x # y # ds)) \<le> MSG_BUF_SIZE - 1"
proof -
  have "(\<Sum>d\<leftarrow>ds. Suc (length (fmt_f L d))) \<le> length ds * 318"
    using assms(4) by (induction ds) (auto simp: plain_def)
  then have "(\<Sum>d\<leftarrow>ds. Suc (length (fmt_f L d))) \<le> 636" using assms(5) by simp
  then show ?thesis
    using keyword_plain[OF assms(1)] assms(2,3)
    by (simp add: length_printf_line plain_def MSG_BUF_SIZE_def)
qed

lemma data_fields_length: "req \<noteq> REQ_TYPE_INVALID \<Longrightarrow> Suc (Suc (Suc (length (data_fields L req pos)))) = arity req"
  by (cases req) (auto simp: Let_def split: prod.splits bool.splits)

lemma c_str_id: "NUL \<notin> set s \<Longrightarrow> c_str s = s"
  by (auto simp: c_str_def takeWhile_eq_all_conv)

lemma response_props:
  assumes "req \<noteq> REQ_TYPE_INVALID"
    and "plain 11 (fmt_f L (lat pos))" "plain 11 (fmt_f L (lon pos))"
    and "\<forall>d\<in>set (data_fields L req pos). plain 317 (fmt_f L d)"
  shows "populate L req pos = Some (printf_line L (keyword req) (lat pos # lon pos # data_fields L req pos))"
    and "c_str (printf_line L (keyword req) (lat pos # lon pos # data_fields L req pos))
       = printf_line L (keyword req) (lat pos # lon pos # data_fields L req pos)"
    and "field_count (printf_line L (keyword req) (lat pos # lon pos # data_fields L req pos)) = arity req"
    and "count_list (printf_line L (keyword req) (lat pos # lon pos # data_fields L req pos)) NL = 1"
    and "last (printf_line L (keyword req) (lat pos # lon pos # data_fields L req pos)) = NL"
proof -
  let ?ds = "lat pos # lon pos # data_fields L req pos"
  have len: "length (data_fields L req pos) \<le> 2"
    using data_fields_length[OF assms(1), of L pos] by (cases req) auto
  have fit: "length (printf_line L (keyword req) ?ds) \<le> MSG_BUF_SIZE - 1"
    using assms len by (intro plain_fits) auto
  have pl: "\<forall>d\<in>set ?ds. COMMA \<notin> set (fmt_f L d) \<and> NL \<notin> set (fmt_f L d) \<and> NUL \<notin> set (fmt_f L d)"
    using assms(2-4) by (auto simp: plain_def)
  note kp = keyword_plain[OF assms(1)]
  note pp = printf_line_props[OF pl, of "keyword req"]
  show "populate L req pos = Some (printf_line L (keyword req) ?ds)"
    using fit by (simp add: populate_wire[OF assms(1)] snprintf_def)
  show "c_str (printf_line L (keyword req) ?ds) = printf_line L (keyword req) ?ds"
    using pp(3) kp by (intro c_str_id) auto
  show "field_count (printf_line L (keyword req) ?ds) = arity req"
    using pp(1) kp data_fields_length[OF assms(1), of L pos] by (simp add: field_count_def)
  show "count_list (printf_line L (keyword req) ?ds) NL = 1" using pp(2) kp by simp
  show "last (printf_line L (keyword req) ?ds) = NL" using pp(4) kp by simp
qed

section \<open>The claims on the codec\<close>

text \<open>
  C4. For every latitude in [-90, 90] and longitude in [-180, 180] that \<^verbatim>\<open>strtod\<close>
  reads from the two argument tokens, either zero included, a request with the exact
  keyword of one of the five commands is answered by one response line: the keyword,
  the latitude and the longitude as \<^verbatim>\<open>%f\<close> renders the doubles read, the numbers of
  the command, separated by commas, and one newline, which ends the line. The line has 5 fields for \<^verbatim>\<open>wind\<close>,
  \<^verbatim>\<open>wind_gust\<close> and \<^verbatim>\<open>ocean_current\<close> and 4 for \<^verbatim>\<open>sea_ice\<close> and \<^verbatim>\<open>wave_height\<close>.
  The write loop writes that line; when every write takes all it is offered, in one
  piece and \<^verbatim>\<open>handleMessage\<close> returns 0.
\<close>

theorem wellformed_request_response:
  assumes "req \<noteq> REQ_TYPE_INVALID"
    and "a \<noteq> []" "COMMA \<notin> set a" "b \<noteq> []" "COMMA \<notin> set b"
    and "strtod L a = x" "d_ge x (Finite (- 90))" "d_le x (Finite 90)"
    and "strtod L b = y" "d_ge y (Finite (- 180))" "d_le y (Finite 180)"
    and "plain 11 (fmt_f L x)" "plain 11 (fmt_f L y)"
    and "\<forall>d\<in>set (data_fields L req \<lparr>lat = x, lon = y\<rparr>). plain 317 (fmt_f L d)"
    and "resp = keyword req @ COMMA # fmt_f L x @ COMMA # fmt_f L y @
           concat (map (\<lambda>d. COMMA # fmt_f L d) (data_fields L req \<lparr>lat = x, lon = y\<rparr>)) @ [NL]"
  shows "handleMessage L ws (keyword req @ COMMA # a @ COMMA # b) = write_loop ws resp
      \<and> handleMessage L [] (keyword req @ COMMA # a @ COMMA # b) = (0, [resp], [])
      \<and> count_list resp NL = 1 \<and> last resp = NL \<and> field_count resp = arity req"
proof -
  let ?pos = "\<lparr>lat = x, lon = y\<rparr>"
  have r: "resp = printf_line L (keyword req) (lat ?pos # lon ?pos # data_fields L req ?pos)"
    using assms(15) by (simp add: printf_line_def)
  have ir: "in_range (strtod L a) (strtod L b)"
    using assms(6-11) by (simp add: in_range_def)
  have p: "plain 11 (fmt_f L (lat ?pos))" "plain 11 (fmt_f L (lon ?pos))"
    using assms(12,13) by simp_all
  note rp = response_props[OF assms(1) p assms(14), folded r]
  have hb: "handleMessage_buf L (keyword req @ COMMA # a @ COMMA # b) = Some resp"
    using handleMessage_buf_wellformed[OF assms(1-5), of L] ir rp(1) assms(6,9) by simp
  have hm: "handleMessage L ws' (keyword req @ COMMA # a @ COMMA # b) = write_loop ws' resp" for ws'
    by (simp add: handleMessage_def hb rp(2))
  show ?thesis using hm rp(3-5) by simp
qed

theorem wellformed_request_response_witness:
  "handleMessage test_platform [] ''wind,45.0,-63.5''
     = (0, [''wind,45.000000,-63.500000,270.000000,5.000000'' @ [NL]], [])
   \<and> field_count (''wind,45.000000,-63.500000,270.000000,5.000000'' @ [NL]) = 5
   \<and> count_list (''wind,45.000000,-63.500000,270.000000,5.000000'' @ [NL]) NL = 1
   \<and> handleMessage test_platform [] ''sea_ice,-0,0''
     = (0, [''sea_ice,-0.000000,0.000000,0.000000'' @ [NL]], [])
   \<and> field_count (''sea_ice,-0.000000,0.000000,0.000000'' @ [NL]) = 4"
proof -
  have x: "strtod test_platform ''45.0'' = Finite 45"
    and y: "strtod test_platform ''-63.5'' = Finite (- 127 / 2)"
    by (simp_all add: test_defs)
  have rx: "d_ge (Finite 45) (Finite (- 90))" "d_le (Finite 45) (Finite 90)"
    and ry: "d_ge (Finite (- 127 / 2)) (Finite (- 180))" "d_le (Finite (- 127 / 2)) (Finite 180)"
    by (simp_all add: d_ge_def)
  have px: "plain 11 (fmt_f test_platform (Finite 45))"
    and py: "plain 11 (fmt_f test_platform (Finite (- 127 / 2)))"
    by (simp_all add: plain_def test_defs)
  have pd: "\<forall>d\<in>set (data_fields test_platform REQ_TYPE_GET_WIND \<lparr>lat = Finite 45, lon = Finite (- 127 / 2)\<rparr>).
       plain 317 (fmt_f test_platform d)"
    by (simp add: plain_def test_defs)
  have r: "''wind,45.000000,-63.500000,270.000000,5.000000'' @ [NL] =
      keyword REQ_TYPE_GET_WIND @ COMMA # fmt_f test_platform (Finite 45) @ COMMA #
      fmt_f test_platform (Finite (- 127 / 2)) @
      concat (map (\<lambda>d. COMMA # fmt_f test_platform d)
        (data_fields test_platform REQ_TYPE_GET_WIND \<lparr>lat = Finite 45, lon = Finite (- 127 / 2)\<rparr>)) @ [NL]"
    by (simp add: test_defs REQ_STR_GET_WIND_def)
  have w: "handleMessage test_platform [] ''wind,45.0,-63.5''
     = (0, [''wind,45.000000,-63.500000,270.000000,5.000000'' @ [NL]], [])
   \<and> field_count (''wind,45.000000,-63.500000,270.000000,5.000000'' @ [NL]) = 5
   \<and> count_list (''wind,45.000000,-63.500000,270.000000,5.000000'' @ [NL]) NL = 1"
    using wellformed_request_response[of REQ_TYPE_GET_WIND "''45.0''" "''-63.5''" test_platform
      "Finite 45" "Finite (- 127 / 2)" _ "[]", OF _ _ _ _ _ x rx y ry px py pd r]
    by (simp add: REQ_STR_GET_WIND_def)
  have x0: "strtod test_platform ''-0'' = NegZero"
    and y0: "strtod test_platform ''0'' = Finite 0"
    by (simp_all add: test_defs)
  have r0: "d_ge NegZero (Finite (- 90))" "d_le NegZero (Finite 90)"
    and s0: "d_ge (Finite 0) (Finite (- 180))" "d_le (Finite 0) (Finite 180)"
    by (simp_all add: d_ge_def)
  have px0: "plain 11 (fmt_f test_platform NegZero)"
    and py0: "plain 11 (fmt_f test_platform (Finite 0))"
    by (simp_all add: plain_def test_defs)
  have pd0: "\<forall>d\<in>set (data_fields test_platform REQ_TYPE_GET_SEA_ICE \<lparr>lat = NegZero, lon = Finite 0\<rparr>).
       plain 317 (fmt_f test_platform d)"
    by (simp add: plain_def test_defs)
  have q: "''sea_ice,-0.000000,0.000000,0.000000'' @ [NL] =
      keyword REQ_TYPE_GET_SEA_ICE @ COMMA # fmt_f test_platform NegZero @ COMMA #
      fmt_f test_platform (Finite 0) @
      concat (map (\<lambda>d. COMMA # fmt_f test_platform d)
        (data_fields test_platform REQ_TYPE_GET_SEA_ICE \<lparr>lat = NegZero, lon = Finite 0\<rparr>)) @ [NL]"
    by (simp add: test_defs REQ_STR_GET_SEA_ICE_def)
  have z: "handleMessage test_platform [] ''sea_ice,-0,0''
     = (0, [''sea_ice,-0.000000,0.000000,0.000000'' @ [NL]], [])
   \<and> field_count (''sea_ice,-0.000000,0.000000,0.000000'' @ [NL]) = 4"
    using wellformed_request_response[of REQ_TYPE_GET_SEA_ICE "''-0''" "''0''" test_platform
      NegZero "Finite 0" _ "[]", OF _ _ _ _ _ x0 r0 y0 s0 px0 py0 pd0 q]
    by (simp add: REQ_STR_GET_SEA_ICE_def)
  show ?thesis using w z by blast
qed

text \<open>
  C7. When the ocean or the wave query reports that it found no data, the numbers
  behind the position in the \<^verbatim>\<open>ocean_current\<close>, \<^verbatim>\<open>sea_ice\<close> and \<^verbatim>\<open>wave_height\<close>
  responses are the sentinel -999.0, and whether or not the query found data the
  responses have 5, 4 and 4 comma-separated fields.
\<close>

theorem no_data_sentinel:
  assumes "proteus_Ocean_get L pos = (ocean_found, od)"
    and "proteus_Wave_get L pos = (wave_found, wd)"
    and "plain 11 (fmt_f L (lat pos))" "plain 11 (fmt_f L (lon pos))"
    and "plain 317 (fmt_f L INVALID_DOUBLE_VALUE)"
    and "ocean_found \<longrightarrow> plain 317 (fmt_f L (angle (current od))) \<and>
           plain 317 (fmt_f L (mag (current od))) \<and> plain 317 (fmt_f L (ice od))"
    and "wave_found \<longrightarrow> plain 317 (fmt_f L (waveHeight wd))"
  shows "INVALID_DOUBLE_VALUE = Finite (- 999)
     \<and> (\<not> ocean_found \<longrightarrow>
          populateOceanResponse L MSG_BUF_SIZE pos False =
            printf_line L REQ_STR_GET_OCEAN_CURRENT
              [lat pos, lon pos, INVALID_DOUBLE_VALUE, INVALID_DOUBLE_VALUE] \<and>
          populateOceanResponse L MSG_BUF_SIZE pos True =
            printf_line L REQ_STR_GET_SEA_ICE [lat pos, lon pos, INVALID_DOUBLE_VALUE])
     \<and> (\<not> wave_found \<longrightarrow>
          populateWaveResponse L MSG_BUF_SIZE pos =
            printf_line L REQ_STR_GET_WAVE_HEIGHT [lat pos, lon pos, INVALID_DOUBLE_VALUE])
     \<and> field_count (populateOceanResponse L MSG_BUF_SIZE pos False) = 5
     \<and> field_count (populateOceanResponse L MSG_BUF_SIZE pos True) = 4
     \<and> field_count (populateWaveResponse L MSG_BUF_SIZE pos) = 4"
proof -
  have df: "\<forall>d\<in>set (data_fields L req pos). plain 317 (fmt_f L d)"
    if "req = REQ_TYPE_GET_OCEAN_CURRENT \<or> req = REQ_TYPE_GET_SEA_ICE \<or> req = REQ_TYPE_GET_WAVE_HEIGHT"
    for req
    using that assms by (cases ocean_found; cases wave_found) auto
  have oc: "populateOceanResponse L MSG_BUF_SIZE pos False =
      printf_line L REQ_STR_GET_OCEAN_CURRENT (lat pos # lon pos # data_fields L REQ_TYPE_GET_OCEAN_CURRENT pos)"
    and ocn: "field_count (populateOceanResponse L MSG_BUF_SIZE pos False) = 5"
    using response_props(1,3)[OF _ assms(3,4) df, of REQ_TYPE_GET_OCEAN_CURRENT] by simp_all
  have si: "populateOceanResponse L MSG_BUF_SIZE pos True =
      printf_line L REQ_STR_GET_SEA_ICE (lat pos # lon pos # data_fields L REQ_TYPE_GET_SEA_ICE pos)"
    and sin: "field_count (populateOceanResponse L MSG_BUF_SIZE pos True) = 4"
    using response_props(1,3)[OF _ assms(3,4) df, of REQ_TYPE_GET_SEA_ICE] by simp_all
  have wh: "populateWaveResponse L MSG_BUF_SIZE pos =
      printf_line L REQ_STR_GET_WAVE_HEIGHT (lat pos # lon pos # data_fields L REQ_TYPE_GET_WAVE_HEIGHT pos)"
    and whn: "field_count (populateWaveResponse L MSG_BUF_SIZE pos) = 4"
    using response_props(1,3)[OF _ assms(3,4) df, of REQ_TYPE_GET_WAVE_HEIGHT] by simp_all
  show ?thesis
    using oc ocn si sin wh whn assms(1,2) by (simp add: INVALID_DOUBLE_VALUE_def)
qed

theorem no_data_sentinel_witness:
  "populateOceanResponse test_platform MSG_BUF_SIZE \<lparr>lat = Finite (- 45), lon = Finite 10\<rparr> False
     = ''ocean_current,-45.000000,10.000000,-999.000000,-999.000000'' @ [NL]
   \<and> populateOceanResponse test_platform MSG_BUF_SIZE \<lparr>lat = Finite (- 45), lon = Finite 10\<rparr> True
     = ''sea_ice,-45.000000,10.000000,-999.000000'' @ [NL]
   \<and> populateWaveResponse test_platform MSG_BUF_SIZE \<lparr>lat = Finite (- 45), lon = Finite 10\<rparr>
     = ''wave_height,-45.000000,10.000000,-999.000000'' @ [NL]
   \<and> field_count (populateOceanResponse test_platform MSG_BUF_SIZE \<lparr>lat = Finite (- 45), lon = Finite 10\<rparr> False) = 5"
proof -
  let ?pos = "\<lparr>lat = Finite (- 45), lon = Finite 10\<rparr>"
  have o: "proteus_Ocean_get test_platform ?pos
      = (False, \<lparr>current = \<lparr>angle = Finite 90, mag = Finite (1 / 2)\<rparr>, ice = Finite 0\<rparr>)"
    and w: "proteus_Wave_get test_platform ?pos = (False, \<lparr>waveHeight = Finite (3 / 2)\<rparr>)"
    by (simp_all add: test_platform_def)
  have p: "plain 11 (fmt_f test_platform (lat ?pos))" "plain 11 (fmt_f test_platform (lon ?pos))"
    "plain 317 (fmt_f test_platform INVALID_DOUBLE_VALUE)"
    by (simp_all add: plain_def test_defs INVALID_DOUBLE_VALUE_def)
  let ?od = "\<lparr>current = \<lparr>angle = Finite 90, mag = Finite (1 / 2)\<rparr>, ice = Finite 0\<rparr>"
  have i: "False \<longrightarrow> plain 317 (fmt_f test_platform (angle (current ?od))) \<and>
           plain 317 (fmt_f test_platform (mag (current ?od))) \<and>
           plain 317 (fmt_f test_platform (ice ?od))"
    "False \<longrightarrow> plain 317 (fmt_f test_platform (waveHeight \<lparr>waveHeight = Finite (3 / 2)\<rparr>))"
    by simp_all
  note th = no_data_sentinel[OF o w p i]
  have a: "populateOceanResponse test_platform MSG_BUF_SIZE ?pos False =
      printf_line test_platform REQ_STR_GET_OCEAN_CURRENT
        [lat ?pos, lon ?pos, INVALID_DOUBLE_VALUE, INVALID_DOUBLE_VALUE]"
    and b: "populateOceanResponse test_platform MSG_BUF_SIZE ?pos True =
      printf_line test_platform REQ_STR_GET_SEA_ICE [lat ?pos, lon ?pos, INVALID_DOUBLE_VALUE]"
    and c: "populateWaveResponse test_platform MSG_BUF_SIZE ?pos =
      printf_line test_platform REQ_STR_GET_WAVE_HEIGHT [lat ?pos, lon ?pos, INVALID_DOUBLE_VALUE]"
    and d: "field_count (populateOceanResponse test_platform MSG_BUF_SIZE ?pos False) = 5"
    using th by blast+
  have e: "printf_line test_platform REQ_STR_GET_OCEAN_CURRENT
        [lat ?pos, lon ?pos, INVALID_DOUBLE_VALUE, INVALID_DOUBLE_VALUE]
      = ''ocean_current,-45.000000,10.000000,-999.000000,-999.000000'' @ [NL]"
    "printf_line test_platform REQ_STR_GET_SEA_ICE [lat ?pos, lon ?pos, INVALID_DOUBLE_VALUE]
      = ''sea_ice,-45.000000,10.000000,-999.000000'' @ [NL]"
    "printf_line test_platform REQ_STR_GET_WAVE_HEIGHT [lat ?pos, lon ?pos, INVALID_DOUBLE_VALUE]
      = ''wave_height,-45.000000,10.000000,-999.000000'' @ [NL]"
    by (simp_all add: printf_line_def test_defs INVALID_DOUBLE_VALUE_def
        REQ_STR_GET_OCEAN_CURRENT_def REQ_STR_GET_SEA_ICE_def REQ_STR_GET_WAVE_HEIGHT_def)
  show ?thesis
    unfolding a b c e using d[unfolded a e] by simp
qed

text \<open>
  C9. For a recognised keyword followed by two argument tokens the only test on the
  tokens is the range test on what \<^verbatim>\<open>strtod\<close> returns for them: a request in range is
  answered with its data line, whatever the tokens look like. Where \<^verbatim>\<open>strtod\<close> returns
  0 for the tokens \<^verbatim>\<open>abc\<close> and \<^verbatim>\<open>def\<close>, which have no numeric prefix, the request
  \<^verbatim>\<open>wind,abc,def\<close> is answered with the wind line of the position (0, 0) and
  \<^verbatim>\<open>handleMessage\<close> returns 0.
\<close>

theorem lenient_numeric_parsing:
  assumes "req \<noteq> REQ_TYPE_INVALID"
    and "a \<noteq> []" "COMMA \<notin> set a" "b \<noteq> []" "COMMA \<notin> set b"
    and "strtod L ''abc'' = Finite 0" "strtod L ''def'' = Finite 0"
  shows "handleMessage_buf L (keyword req @ COMMA # a @ COMMA # b) =
       (if in_range (strtod L a) (strtod L b)
        then populate L req \<lparr>lat = strtod L a, lon = strtod L b\<rparr> else None)
     \<and> handleMessage_buf L ''wind,abc,def'' =
         Some (populateWindResponse L MSG_BUF_SIZE \<lparr>lat = Finite 0, lon = Finite 0\<rparr> False)
     \<and> handleMessage L [] ''wind,abc,def'' =
         (0, [c_str (populateWindResponse L MSG_BUF_SIZE \<lparr>lat = Finite 0, lon = Finite 0\<rparr> False)], [])"
proof -
  have g: "handleMessage_buf L (keyword req @ COMMA # a @ COMMA # b) =
       (if in_range (strtod L a) (strtod L b)
        then populate L req \<lparr>lat = strtod L a, lon = strtod L b\<rparr> else None)"
    by (rule handleMessage_buf_wellformed[OF assms(1-5)])
  have "handleMessage_buf L (keyword REQ_TYPE_GET_WIND @ COMMA # ''abc'' @ COMMA # ''def'') =
       (if in_range (strtod L ''abc'') (strtod L ''def'')
        then populate L REQ_TYPE_GET_WIND \<lparr>lat = strtod L ''abc'', lon = strtod L ''def''\<rparr> else None)"
    by (rule handleMessage_buf_wellformed) simp_all
  then have w: "handleMessage_buf L ''wind,abc,def'' =
         Some (populateWindResponse L MSG_BUF_SIZE \<lparr>lat = Finite 0, lon = Finite 0\<rparr> False)"
    using assms(6,7) by (simp add: REQ_STR_GET_WIND_def in_range_def d_ge_def)
  show ?thesis using g w by (simp add: handleMessage_def)
qed

theorem lenient_numeric_parsing_witness:
  "handleMessage test_platform [] ''wind,abc,def''
     = (0, [''wind,0.000000,0.000000,270.000000,5.000000'' @ [NL]], [])
   \<and> handleMessage_buf test_platform ''sea_ice,x,200'' = None"
proof -
  have z: "strtod test_platform ''abc'' = Finite 0" "strtod test_platform ''def'' = Finite 0"
    by (simp_all add: test_defs)
  have th: "handleMessage_buf test_platform (keyword REQ_TYPE_GET_SEA_ICE @ COMMA # ''x'' @ COMMA # ''200'') =
       (if in_range (strtod test_platform ''x'') (strtod test_platform ''200'')
        then populate test_platform REQ_TYPE_GET_SEA_ICE
               \<lparr>lat = strtod test_platform ''x'', lon = strtod test_platform ''200''\<rparr>
        else None)
     \<and> handleMessage_buf test_platform ''wind,abc,def'' =
         Some (populateWindResponse test_platform MSG_BUF_SIZE \<lparr>lat = Finite 0, lon = Finite 0\<rparr> False)
     \<and> handleMessage test_platform [] ''wind,abc,def'' =
         (0, [c_str (populateWindResponse test_platform MSG_BUF_SIZE \<lparr>lat = Finite 0, lon = Finite 0\<rparr> False)], [])"
    by (rule lenient_numeric_parsing[OF _ _ _ _ _ z]) simp_all
  have k: "keyword REQ_TYPE_GET_SEA_ICE @ COMMA # ''x'' @ COMMA # ''200'' = ''sea_ice,x,200''"
    by (simp add: REQ_STR_GET_SEA_ICE_def)
  have r: "\<not> in_range (strtod test_platform ''x'') (strtod test_platform ''200'')"
    by (simp add: in_range_def d_ge_def test_defs)
  have p: "c_str (populateWindResponse test_platform MSG_BUF_SIZE \<lparr>lat = Finite 0, lon = Finite 0\<rparr> False)
      = ''wind,0.000000,0.000000,270.000000,5.000000'' @ [NL]"
    by (simp add: test_defs populateWindResponse_def
        snprintf_def printf_line_def MSG_BUF_SIZE_def REQ_STR_GET_WIND_def c_str_def)
  from th show ?thesis unfolding k p using r by simp
qed

text \<open>
  C6. \<^verbatim>\<open>getReqType\<close> compares as many bytes as the token has, so it maps the five
  keywords to their commands, tells upper case from lower case and rejects \<^verbatim>\<open>bogus\<close>,
  and it also maps every non-empty beginning of a keyword to a command: the request
  \<^verbatim>\<open>w,1,2\<close> is answered with a wind line, where \<^verbatim>\<open>bogus,1,2\<close> is answered with
  \<^verbatim>\<open>error\<close>.
\<close>

theorem getReqType_accepts_prefixes:
  "getReqType ''wind'' = REQ_TYPE_GET_WIND
   \<and> getReqType ''Wind'' = REQ_TYPE_INVALID
   \<and> getReqType ''bogus'' = REQ_TYPE_INVALID
   \<and> getReqType ''w'' = REQ_TYPE_GET_WIND
   \<and> getReqType ''wind_'' = REQ_TYPE_GET_WIND_GUST
   \<and> getReqType ''s'' = REQ_TYPE_GET_SEA_ICE
   \<and> handleMessage test_platform [] ''bogus,1,2'' = (- 1, [''error'' @ [NL]], [])
   \<and> handleMessage test_platform [] ''w,1,2''
       = (0, [''wind,1.000000,2.000000,270.000000,5.000000'' @ [NL]], [])"
  by (simp add: handleMessage_def codec_defs test_defs c_str_def)

section \<open>The request loop refines the framing\<close>

text \<open>
  The scan finds the first newline of the bytes that count, unless a zero byte comes
  first; an iteration of the request loop keeps the state of the connection well formed
  and either leaves the bytes not yet handed over as they are, or hands over the first
  line of them; so the trace of the request loop is the one the framing describes, up
  to the point where a read fails.
\<close>

lemma has_line_Nil [simp]: "\<not> has_line []"
  by (simp add: has_line_def c_str_def)

lemma has_line_Cons:
  "has_line (c # cs) = (c \<noteq> NUL \<and> (c = NL \<or> has_line cs))"
  by (auto simp: has_line_def c_str_def)

lemma scan_newline_spec:
  assumes "j \<le> n" "n \<le> length b"
  shows "scan_newline b n j =
     (if has_line (drop j (take n b))
      then (j + Suc (length (takeWhile (\<lambda>c. c \<noteq> NL) (drop j (take n b)))), True)
      else (j + length (c_str (drop j (take n b))), False))"
  using assms
proof (induction b n j rule: scan_newline.induct)
  case (1 b n i)
  show ?case
  proof (cases "i < n")
    case False
    with 1(2,3) have "drop i (take n b) = []" by simp
    then show ?thesis using False
      by (subst scan_newline.simps) (simp add: c_str_def)
  next
    case True
    with 1(3) have d: "drop i (take n b) = b ! i # drop (Suc i) (take n b)"
      by (simp add: Cons_nth_drop_Suc[symmetric])
    show ?thesis
    proof (cases "b ! i = NUL \<or> b ! i = NL")
      case True
      then show ?thesis using \<open>i < n\<close>
        by (subst scan_newline.simps) (auto simp: d has_line_Cons c_str_def)
    next
      case False
      with True 1(1)[of] 1(3) have
        ih: "scan_newline b n (Suc i) =
          (if has_line (drop (Suc i) (take n b))
           then (Suc i + Suc (length (takeWhile (\<lambda>c. c \<noteq> NL) (drop (Suc i) (take n b)))), True)
           else (Suc i + length (c_str (drop (Suc i) (take n b))), False))"
        by simp
      show ?thesis using False True
        by (subst scan_newline.simps) (simp add: ih d has_line_Cons c_str_def)
    qed
  qed
qed

lemma scan_newline_valid:
  assumes "n \<le> length b"
  shows "scan_newline b n 0 =
     (if has_line (take n b)
      then (Suc (length (takeWhile (\<lambda>c. c \<noteq> NL) (take n b))), True)
      else (length (c_str (take n b)), False))"
  using scan_newline_spec[of 0 n b] assms by simp

lemma has_line_split:
  assumes "has_line xs"
  shows "\<exists>r. xs = takeWhile (\<lambda>c. c \<noteq> NL) xs @ NL # r"
    and "NUL \<notin> set (takeWhile (\<lambda>c. c \<noteq> NL) xs)"
    and "NL \<notin> set (takeWhile (\<lambda>c. c \<noteq> NL) xs)"
proof -
  show "\<exists>r. xs = takeWhile (\<lambda>c. c \<noteq> NL) xs @ NL # r"
    using assms by (induction xs) (auto simp: has_line_Cons)
  show "NUL \<notin> set (takeWhile (\<lambda>c. c \<noteq> NL) xs)"
    using assms by (induction xs) (auto simp: has_line_Cons)
  show "NL \<notin> set (takeWhile (\<lambda>c. c \<noteq> NL) xs)"
    by (induction xs) auto
qed

lemma has_line_append:
  "has_line xs \<Longrightarrow> has_line (xs @ ys)"
  by (induction xs) (auto simp: has_line_Cons)

lemma has_line_append_iff:
  "NUL \<in> set xs \<Longrightarrow> has_line (xs @ ys) = has_line xs"
  by (induction xs) (auto simp: has_line_Cons)

lemma takeWhile_line_append:
  "has_line xs \<Longrightarrow> takeWhile (\<lambda>c. c \<noteq> NL) (xs @ ys) = takeWhile (\<lambda>c. c \<noteq> NL) xs"
  by (induction xs) (auto simp: has_line_Cons)

lemma c_str_update:
  assumes "NUL \<notin> set l"
  shows "c_str ((l @ c # r)[length l := NUL]) = l"
  using assms by (induction l) (auto simp: c_str_def)

lemma length_store: "off + length bytes \<le> length b \<Longrightarrow> length (store b off bytes) = length b"
  by (simp add: store_def)

lemma take_store: "off + length bytes \<le> length b \<Longrightarrow>
   take (off + length bytes) (store b off bytes) = take off b @ bytes"
  by (simp add: store_def)

lemma length_memmove: "i \<le> length b \<Longrightarrow> length (memmove b 0 i (length b - i)) = length b"
  by (simp add: memmove_def)

lemma take_memmove:
  assumes "i \<le> n" "n \<le> length b"
  shows "take (n - i) (memmove b 0 i (length b - i)) = drop i (take n b)"
  using assms by (simp add: memmove_def drop_take)


lemma set_dropWhile_tl:
  "dropWhile P xs = y # ys \<Longrightarrow> set ys \<subseteq> set xs"
  by (metis set_dropWhileD set_subset_Cons subsetI subset_trans list.set_intros(2))

lemma read_fd_sim:
  assumes "read_fd s c = (Some (rb, bytes), s')"
  shows "buf s' = buf s \<and> readyBytes s' = readyBytes s \<and> eos s' = eos s \<and> counter s' = counter s
      \<and> closes s' = closes s \<and> wsched s' = wsched s \<and> trace s' = trace s
      \<and> set (sched s') \<subseteq> set (sched s)
      \<and> (rb < 0 \<longrightarrow> ReadErr \<in> set (sched s) \<and> pending s' = pending s)
      \<and> (0 \<le> rb \<longrightarrow> rb = int (length bytes) \<and> bytes @ pending s' = pending s
            \<and> length bytes \<le> c \<and> (bytes = [] \<and> 0 < c \<longrightarrow> pending s = []))"
proof (cases "dropWhile (\<lambda>e. e = NotReady) (sched s)")
  case Nil
  with assms show ?thesis by (auto simp: Let_def min_def split: if_splits)
next
  case (Cons e r)
  then have ne: "e \<noteq> NotReady" using hd_dropWhile[of "\<lambda>e. e = NotReady" "sched s"] by auto
  have sub: "set r \<subseteq> set (sched s)" using Cons by (rule set_dropWhile_tl)
  have mem: "e \<in> set (sched s)" using Cons set_dropWhileD[of e "\<lambda>e. e = NotReady" "sched s"] by simp
  show ?thesis
  proof (cases e)
    case NotReady
    with ne show ?thesis by simp
  next
    case (Ready n)
    with assms Cons sub show ?thesis by (auto simp: Let_def min_def split: if_splits)
  next
    case ReadErr
    with assms Cons sub mem show ?thesis by (auto simp: Let_def)
  qed
qed

lemma read_fd_blocked:
  assumes "read_fd s c = (None, s')"
  shows "pending s = [] \<and> \<not> closes s \<and> trace s' = trace s \<and> ReadErr \<notin> set (sched s)
     \<and> (\<forall>e\<in>set (sched s). e = NotReady)"
proof (cases "dropWhile (\<lambda>e. e = NotReady) (sched s)")
  case Nil
  then have "\<forall>e\<in>set (sched s). e = NotReady" by (simp add: dropWhile_eq_Nil_conv)
  with assms Nil show ?thesis by (auto simp: Let_def split: if_splits)
next
  case (Cons e r)
  then have ne: "e \<noteq> NotReady" using hd_dropWhile[of "\<lambda>e. e = NotReady" "sched s"] by auto
  with assms Cons show ?thesis by (cases e) (auto simp: Let_def split: if_splits)
qed

lemma select_fd_sim:
  assumes "select_fd s = (ready, s1)"
  shows "buf s1 = buf s \<and> readyBytes s1 = readyBytes s \<and> eos s1 = eos s \<and> counter s1 = counter s
      \<and> closes s1 = closes s \<and> wsched s1 = wsched s \<and> trace s1 = trace s \<and> pending s1 = pending s
      \<and> set (sched s1) \<subseteq> set (sched s)
      \<and> (\<not> ready \<longrightarrow> (\<forall>e\<in>set (sched s1). e = NotReady) \<longrightarrow> sched s \<noteq> [] \<or> quiet s)"
  using assms by (auto simp: quiet_def split: list.splits rd.splits)


lemma select_fd_ready:
  assumes "select_fd s = (True, sa)"
  shows "sa = s \<and> (sched s = [] \<and> (pending s \<noteq> [] \<or> closes s)
          \<or> (\<exists>e r. sched s = e # r \<and> e \<noteq> NotReady))"
proof (cases "sched s")
  case Nil
  with assms show ?thesis by auto
next
  case (Cons e r)
  with assms show ?thesis by (cases e) auto
qed

lemma read_phase_sim:
  assumes inv: "conn_inv s" and nf: "readyBytes s \<noteq> MSG_BUF_SIZE"
    and rp: "read_phase s = (s1, Inr rb)"
  shows "length (buf s1) = MSG_BUF_SIZE \<and> readyBytes s1 = readyBytes s
      \<and> readyBytes s + rb \<le> MSG_BUF_SIZE
      \<and> take (readyBytes s + rb) (buf s1) @ pending s1 = unread s
      \<and> (eos s1 \<longrightarrow> pending s1 = []) \<and> trace s1 = trace s \<and> wsched s1 = wsched s
      \<and> closes s1 = closes s \<and> (pending s = [] \<longrightarrow> pending s1 = [] \<and> rb = 0)
      \<and> set (sched s1) \<subseteq> set (sched s) \<and> (eos s1 \<longrightarrow> rb = 0)
      \<and> (quiet s \<and> \<not> eos s \<longrightarrow> readyBytes s \<noteq> 0)"
proof -
  from inv have len: "length (buf s) = MSG_BUF_SIZE" and rb: "readyBytes s \<le> MSG_BUF_SIZE"
    and ep: "eos s \<longrightarrow> pending s = []"
    by (simp_all add: conn_inv_def)
  from rb nf have lt: "readyBytes s < MSG_BUF_SIZE" by simp
  show ?thesis
  proof (cases "eos s")
    case True
    with rp have "s1 = s" "rb = 0" by (simp_all add: read_phase_def)
    then show ?thesis using len rb ep True by (simp add: unread_def valid_def)
  next
    case False
    obtain ready sa where sel: "select_fd s = (ready, sa)" by (cases "select_fd s")
    note ss = select_fd_sim[OF sel]
    show ?thesis
    proof (cases "ready \<or> readyBytes sa = 0")
      case nr: False
      with rp False sel have "s1 = sa" "rb = 0" by (auto simp: read_phase_def)
      then show ?thesis using ss len rb ep False nr by (simp add: unread_def valid_def)
    next
      case rd: True
      obtain res sb where rf: "read_fd sa (MSG_BUF_SIZE - readyBytes sa) = (res, sb)"
        by (cases "read_fd sa (MSG_BUF_SIZE - readyBytes sa)")
      from rp False sel rd rf obtain k bytes where res: "res = Some (k, bytes)"
        by (cases res) (auto simp: read_phase_def)
      note rs = read_fd_sim[OF rf[unfolded res]]
      from rp False sel rd rf res have nn: "0 \<le> k"
        by (auto simp: read_phase_def Let_def split: if_splits)
      with rs have kb: "k = int (length bytes)" and bp: "bytes @ pending sb = pending s"
        and bl: "length bytes \<le> MSG_BUF_SIZE - readyBytes s"
        and be: "bytes = [] \<longrightarrow> pending s = []"
        using ss lt by auto
      define s3 where "s3 = sb\<lparr>buf := store (buf sb) (readyBytes sb) bytes,
                 counter := counter_inc COUNTER_READ (counter sb)\<rparr>"
      have s1: "s1 = (if k = 0 then s3\<lparr>eos := True\<rparr> else s3)" and rbk: "rb = nat k"
        using rp False sel rd rf res nn
        by (auto simp: read_phase_def Let_def s3_def split: if_splits)
      have fit: "readyBytes s + length bytes \<le> length (buf s)" using bl lt len by simp
      have b3: "buf s3 = store (buf s) (readyBytes s) bytes" "readyBytes s3 = readyBytes s"
        "pending s3 = pending sb" "trace s3 = trace s" "wsched s3 = wsched s" "closes s3 = closes s"
        "sched s3 = sched sb" "eos s3 = eos s"
        using rs ss by (simp_all add: s3_def)
      have tk: "take (readyBytes s + length bytes) (buf s3) = take (readyBytes s) (buf s) @ bytes"
        unfolding b3 using fit by (rule take_store)
      have l3: "length (buf s3) = MSG_BUF_SIZE"
        unfolding b3 using fit len by (simp add: length_store)
      have un: "take (readyBytes s + rb) (buf s3) @ pending s3 = unread s"
        using tk bp kb rbk by (simp add: unread_def valid_def b3)
      have pe: "k = 0 \<longrightarrow> pending s3 = []" using kb be bp b3 by auto
      have sub: "set (sched s3) \<subseteq> set (sched s)" using rs ss b3 by auto
      have fit2: "readyBytes s + rb \<le> MSG_BUF_SIZE" using bl kb rbk lt by simp
      have pp: "pending s = [] \<longrightarrow> pending s3 = [] \<and> rb = 0" using bp b3 kb rbk by auto
      have nq: "\<not> quiet s"
      proof
        assume q: "quiet s"
        then have "sa = s" "\<not> ready" using sel by (auto simp: quiet_def)
        with q rf res show False by (auto simp: quiet_def)
      qed
      show ?thesis
      proof (cases "k = 0")
        case True
        then have "s1 = s3\<lparr>eos := True\<rparr>" using s1 by simp
        then show ?thesis using l3 b3 un pe fit2 sub pp True rbk nq by simp
      next
        case kn: False
        then have "s1 = s3" using s1 by simp
        then show ?thesis using l3 b3 un fit2 sub pp False nq by simp
      qed
    qed
  qed
qed

lemma read_phase_exit:
  assumes "read_phase s = (s1, Inl e)"
  shows "trace s1 = trace s \<and>
     ((e = Blocked \<and> readyBytes s = 0 \<and> pending s = [] \<and> \<not> eos s)
      \<or> (e = ReadFailed \<and> ReadErr \<in> set (sched s)))"
proof -
  from assms have ne: "\<not> eos s" by (auto simp: read_phase_def split: if_splits)
  obtain ready sa where sel: "select_fd s = (ready, sa)" by (cases "select_fd s")
  note ss = select_fd_sim[OF sel]
  from assms ne sel have rd: "ready \<or> readyBytes sa = 0"
    by (auto simp: read_phase_def split: if_splits)
  obtain res sb where rf: "read_fd sa (MSG_BUF_SIZE - readyBytes sa) = (res, sb)"
    by (cases "read_fd sa (MSG_BUF_SIZE - readyBytes sa)")
  show ?thesis
  proof (cases res)
    case None
    note rb = read_fd_blocked[OF rf[unfolded None]]
    from assms ne sel rd rf None have e: "e = Blocked" "s1 = sb"
      by (auto simp: read_phase_def)
    have "\<not> ready"
    proof
      assume ready
      with sel have "sa = s \<and> (sched s = [] \<and> (pending s \<noteq> [] \<or> closes s)
          \<or> (\<exists>e r. sched s = e # r \<and> e \<noteq> NotReady))"
        by (rule_tac select_fd_ready) simp
      with rb show False by auto
    qed
    with rd have "readyBytes sa = 0" by simp
    then show ?thesis using e rb ss ne by auto
  next
    case (Some kb)
    obtain k bytes where kb: "kb = (k, bytes)" by (cases kb)
    note rs = read_fd_sim[OF rf[unfolded Some kb]]
    from assms ne sel rd rf Some kb have "k < 0 \<and> e = ReadFailed \<and> trace s1 = trace sb"
      by (auto simp: read_phase_def Let_def split: if_splits)
    then show ?thesis using rs ss by auto
  qed
qed


lemma dispatch_sim:
  assumes len: "length (buf s) = MSG_BUF_SIZE" and rb: "readyBytes s \<le> MSG_BUF_SIZE"
    and hl: "has_line (valid s)"
    and i: "i = Suc (length (takeWhile (\<lambda>c. c \<noteq> NL) (valid s)))"
    and hm: "handleMessage L (wsched s) (takeWhile (\<lambda>c. c \<noteq> NL) (valid s)) = (rc, out, ws')"
    and d: "dispatch L s i = (s', x)"
  shows "trace s' = trace s @ Dispatch (takeWhile (\<lambda>c. c \<noteq> NL) (valid s)) # map Sent out
     \<and> pending s' = pending s \<and> eos s' = eos s \<and> sched s' = sched s \<and> closes s' = closes s
     \<and> (rc \<noteq> 0 \<longrightarrow> x = Some MessageFailed)
     \<and> (rc = 0 \<longrightarrow> wsched s' = ws' \<and> length (buf s') = MSG_BUF_SIZE
           \<and> readyBytes s' = readyBytes s - i \<and> i \<le> readyBytes s
           \<and> valid s' = drop i (valid s)
           \<and> x = (if eos s \<and> readyBytes s = i then Some Drained else None))"
proof -
  define l where "l = takeWhile (\<lambda>c. c \<noteq> NL) (valid s)"
  from has_line_split[OF hl] obtain r where v: "valid s = l @ NL # r" and nul: "NUL \<notin> set l"
    unfolding l_def by auto
  have lv: "length (valid s) = readyBytes s" using rb len by (simp add: valid_def)
  have isl: "i = Suc (length l)" by (simp add: i l_def)
  have "length (valid s) = Suc (length l + length r)" by (subst v) simp
  with lv isl have ile: "i \<le> readyBytes s" by simp
  have b: "buf s = l @ NL # (r @ drop (readyBytes s) (buf s))"
    using v append_take_drop_id[of "readyBytes s" "buf s"] by (simp add: valid_def)
  have i1: "i - Suc 0 = length l" by (simp add: i l_def)
  have cs: "c_str ((buf s)[i - Suc 0 := NUL]) = l"
    unfolding i1 by (subst b) (rule c_str_update[OF nul])
  define b' where "b' = (buf s)[i - Suc 0 := NUL]"
  have lb': "length b' = MSG_BUF_SIZE" by (simp add: b'_def len)
  have il: "i \<le> length b'" using ile rb lb' by simp
  have mm: "length (memmove b' 0 i (MSG_BUF_SIZE - i)) = MSG_BUF_SIZE"
    using length_memmove[OF il] lb' by simp
  have "take (readyBytes s - i) (memmove b' 0 i (length b' - i)) = drop i (take (readyBytes s) b')"
    using ile rb lb' by (intro take_memmove) auto
  also have "\<dots> = drop i (valid s)"
    using i by (simp add: b'_def valid_def take_update_swap drop_update_cancel)
  finally have tv: "take (readyBytes s - i) (memmove b' 0 i (MSG_BUF_SIZE - i)) = drop i (valid s)"
    by (simp add: lb')
  have hm': "handleMessage L (wsched s) l = (rc, out, ws')" using hm by (simp add: l_def)
  show ?thesis
  proof (cases "rc = 0")
    case False
    with d show ?thesis
      unfolding dispatch_def l_def[symmetric] by (auto simp: Let_def cs hm')
  next
    case True
    with d have s': "s' = s\<lparr>buf := memmove b' 0 i (MSG_BUF_SIZE - i),
          counter := counter_inc COUNTER_MESSAGE (counter s),
          wsched := ws', trace := trace s @ Dispatch l # map Sent out,
          readyBytes := readyBytes s - i\<rparr>"
      and x: "x = (if eos s \<and> readyBytes s - i = 0 then Some Drained else None)"
      unfolding dispatch_def by (auto simp: Let_def cs hm' b'_def split: if_splits)
    have "valid s' = drop i (valid s)" unfolding s' using tv by (simp add: valid_def)
    moreover have "(readyBytes s - i = 0) = (readyBytes s = i)" using ile by auto
    ultimately show ?thesis using True x mm ile unfolding s' l_def[symmetric] by simp
  qed
qed


lemma frame_stop:
  assumes "\<not> has_line (take MSG_BUF_SIZE bytes)"
  shows "frame L ws bytes =
     ([], if MSG_BUF_SIZE \<le> length bytes then {DataTooLong}
          else if bytes = [] then {EndOfStream, Drained, Blocked}
          else {EndOfStream, Spinning})"
  using assms by (subst frame.simps) simp

lemma frame_line:
  assumes "has_line v" "length v \<le> MSG_BUF_SIZE"
    and "handleMessage L ws (takeWhile (\<lambda>c. c \<noteq> NL) v) = (rc, out, ws')"
  shows "frame L ws (v @ p) =
     (if rc = 0 then
        (Dispatch (takeWhile (\<lambda>c. c \<noteq> NL) v) # map Sent out @
           fst (frame L ws' (drop (Suc (length (takeWhile (\<lambda>c. c \<noteq> NL) v))) v @ p)),
         snd (frame L ws' (drop (Suc (length (takeWhile (\<lambda>c. c \<noteq> NL) v))) v @ p)))
      else (Dispatch (takeWhile (\<lambda>c. c \<noteq> NL) v) # map Sent out, {MessageFailed}))"
proof -
  have hl: "has_line (take MSG_BUF_SIZE (v @ p))"
    using assms(1,2) by (simp add: has_line_append)
  have tw: "takeWhile (\<lambda>c. c \<noteq> NL) (v @ p) = takeWhile (\<lambda>c. c \<noteq> NL) v"
    using assms(1) by (rule takeWhile_line_append)
  from has_line_split(1)[OF assms(1)] obtain r where
    v: "v = takeWhile (\<lambda>c. c \<noteq> NL) v @ NL # r" by auto
  have "length v = Suc (length (takeWhile (\<lambda>c. c \<noteq> NL) v) + length r)"
    by (subst v) simp
  then have dr: "drop (Suc (length (takeWhile (\<lambda>c. c \<noteq> NL) v))) (v @ p)
      = drop (Suc (length (takeWhile (\<lambda>c. c \<noteq> NL) v))) v @ p"
    by simp
  show ?thesis
    apply (subst frame.simps)
    apply (simp only: Let_def tw)
    apply (simp only: hl dr if_True assms(3) prod.case)
    apply (simp only: case_prod_beta)
    done
qed


lemma request_iter_sim:
  assumes inv: "conn_inv s" and it: "request_iter L s = (s', x)"
  shows "(x = None \<longrightarrow> conn_inv s' \<and> set (sched s') \<subseteq> set (sched s) \<and>
            (\<exists>tr. trace s' = trace s @ tr \<and>
               frame L (wsched s) (unread s) =
                 (tr @ fst (frame L (wsched s') (unread s')), snd (frame L (wsched s') (unread s')))))
       \<and> (\<forall>e. x = Some e \<and> e \<noteq> ReadFailed \<longrightarrow>
            trace s' = trace s @ fst (frame L (wsched s) (unread s)) \<and>
            e \<in> snd (frame L (wsched s) (unread s)))
       \<and> (x = Some ReadFailed \<longrightarrow> trace s' = trace s \<and> ReadErr \<in> set (sched s))"
proof (cases "readyBytes s = MSG_BUF_SIZE")
  case True
  with it have x: "x = Some DataTooLong" and tr: "trace s' = trace s"
    by (auto simp: request_iter_def)
  from inv True have "length (valid s) = MSG_BUF_SIZE" "\<not> has_line (valid s)"
    by (auto simp: conn_inv_def valid_def)
  then have "frame L (wsched s) (unread s) = ([], {DataTooLong})"
    by (subst frame_stop) (simp_all add: unread_def)
  then show ?thesis using x tr by simp
next
  case nf: False
  obtain s1 r where rp: "read_phase s = (s1, r)" by (cases "read_phase s")
  show ?thesis
  proof (cases r)
    case (Inl e)
    with it nf rp have x: "x = Some e" "s' = s1" by (auto simp: request_iter_def)
    from read_phase_exit[OF rp[unfolded Inl]] have tr: "trace s1 = trace s"
      and c: "(e = Blocked \<and> readyBytes s = 0 \<and> pending s = []) \<or>
         (e = ReadFailed \<and> ReadErr \<in> set (sched s))" by auto
    from c show ?thesis
    proof
      assume b: "e = Blocked \<and> readyBytes s = 0 \<and> pending s = []"
      then have "unread s = []" by (simp add: unread_def valid_def)
      then have "frame L (wsched s) (unread s) = ([], {EndOfStream, Drained, Blocked})"
        by (simp add: frame_stop MSG_BUF_SIZE_def)
      then show ?thesis using x tr b by simp
    next
      assume "e = ReadFailed \<and> ReadErr \<in> set (sched s)"
      then show ?thesis using x tr by simp
    qed
  next
    case (Inr rb)
    note rs = read_phase_sim[OF inv nf rp[unfolded Inr]]
    define s2 where "s2 = s1\<lparr>readyBytes := readyBytes s1 + rb\<rparr>"
    define n where "n = rb + readyBytes s1"
    have n: "n \<le> length (buf s1)" "n \<le> MSG_BUF_SIZE" using rs by (simp_all add: n_def)
    have v2: "valid s2 = take n (buf s1)" by (simp add: valid_def s2_def n_def add.commute)
    have lv2: "length (valid s2) = n" using n by (simp add: v2)
    have u2: "valid s2 @ pending s1 = unread s" using rs by (simp add: v2 n_def add.commute)
    have f2: "buf s2 = buf s1" "readyBytes s2 = n" "pending s2 = pending s1" "eos s2 = eos s1"
      "sched s2 = sched s1" "closes s2 = closes s1" "wsched s2 = wsched s" "trace s2 = trace s"
      using rs by (simp_all add: s2_def n_def)
    have un2: "unread s2 = unread s" using u2 by (simp add: unread_def f2)
    note sc = scan_newline_valid[OF n(1), folded v2]
    show ?thesis
    proof (cases "has_line (valid s2)")
      case False
      have it': "(if eos s2 then (s2, Some EndOfStream)
                  else if quiet s then (s2, Some Spinning) else (s2, None)) = (s', x)"
        using it nf rp Inr sc False
        by (auto simp: request_iter_def n_def s2_def Let_def split: if_splits)
      show ?thesis
      proof (cases "eos s2 \<or> quiet s")
        case True
        then have p: "pending s1 = []" and rb0: "rb = 0"
          using rs f2 by (auto simp: quiet_def)
        then have us: "unread s = valid s2" using u2 by simp
        have nlt: "n < MSG_BUF_SIZE" using rb0 rs nf inv by (simp add: n_def conn_inv_def)
        have fr: "frame L (wsched s) (unread s) =
            ([], if valid s2 = [] then {EndOfStream, Drained, Blocked} else {EndOfStream, Spinning})"
          unfolding us using False lv2 nlt by (subst frame_stop) simp_all
        show ?thesis
        proof (cases "eos s2")
          case e: True
          with it' have "x = Some EndOfStream" "s' = s2" by auto
          then show ?thesis using fr f2 by simp
        next
          case e: False
          with True it' have x: "x = Some Spinning" "s' = s2" and q: "quiet s" by auto
          from e f2 rs have "\<not> eos s"
            using rb0 rp Inr by (auto simp: read_phase_def)
          with q rs have "readyBytes s \<noteq> 0" by simp
          then have "valid s2 \<noteq> []" using lv2 rb0 rs by (auto simp: n_def)
          then show ?thesis using fr f2 x by simp
        qed
      next
        case c: False
        with it' have x: "x = None" "s' = s2" by auto
        have "conn_inv s2"
          using rs n False f2 lv2 by (simp add: conn_inv_def)
        then show ?thesis using x f2 un2 rs by simp
      qed
    next
      case True
      have it': "dispatch L s2 (Suc (length (takeWhile (\<lambda>c. c \<noteq> NL) (valid s2)))) = (s', x)"
        using it nf rp Inr sc True by (simp add: request_iter_def n_def s2_def Let_def)
      obtain rc out ws' where
        hm: "handleMessage L (wsched s2) (takeWhile (\<lambda>c. c \<noteq> NL) (valid s2)) = (rc, out, ws')"
        by (cases "handleMessage L (wsched s2) (takeWhile (\<lambda>c. c \<noteq> NL) (valid s2))")
      have l2: "length (buf s2) = MSG_BUF_SIZE" "readyBytes s2 \<le> MSG_BUF_SIZE"
        using rs f2 n by simp_all
      note ds = dispatch_sim[OF l2 True refl hm it']
      define line where "line = takeWhile (\<lambda>c. c \<noteq> NL) (valid s2)"
      note fl = frame_line[OF True _ hm[unfolded f2], of "pending s1", unfolded u2, folded line_def]
      have fr: "frame L (wsched s) (unread s) =
         (if rc = 0 then
            (Dispatch line # map Sent out @ fst (frame L ws' (drop (Suc (length line)) (valid s2) @ pending s1)),
             snd (frame L ws' (drop (Suc (length line)) (valid s2) @ pending s1)))
          else (Dispatch line # map Sent out, {MessageFailed}))"
        using fl lv2 n by simp
      show ?thesis
      proof (cases "rc = 0")
        case False
        with ds have "x = Some MessageFailed" "trace s' = trace s @ Dispatch line # map Sent out"
          by (simp_all add: f2 line_def)
        then show ?thesis using fr False by simp
      next
        case rc0: True
        with ds have d: "wsched s' = ws'" "length (buf s') = MSG_BUF_SIZE"
          "readyBytes s' = n - Suc (length line)" "Suc (length line) \<le> n"
          "valid s' = drop (Suc (length line)) (valid s2)"
          "x = (if eos s1 \<and> n = Suc (length line) then Some Drained else None)"
          "trace s' = trace s @ Dispatch line # map Sent out"
          "pending s' = pending s1" "eos s' = eos s1" "sched s' = sched s1"
          by (simp_all add: f2 line_def)
        have us': "unread s' = drop (Suc (length line)) (valid s2) @ pending s1"
          using d by (simp add: unread_def)
        have fr': "frame L (wsched s) (unread s) =
            (Dispatch line # map Sent out @ fst (frame L (wsched s') (unread s')),
             snd (frame L (wsched s') (unread s')))"
          using fr rc0 by (simp add: us' d)
        show ?thesis
        proof (cases "eos s1 \<and> n = Suc (length line)")
          case True
          then have "unread s' = []" using us' lv2 rs by simp
          then have "frame L (wsched s') (unread s') = ([], {EndOfStream, Drained, Blocked})"
            by (simp add: frame_stop MSG_BUF_SIZE_def)
          then show ?thesis using fr' d True by simp
        next
          case False
          then have x: "x = None" using d by simp
          have "conn_inv s'"
            using d n rs by (auto simp: conn_inv_def)
          then show ?thesis using x fr' d rs by auto
        qed
      qed
    qed
  qed
qed


lemma request_loop_frames:
  assumes "conn_inv s" "request_loop L s = (s', e)"
  shows "(e \<noteq> ReadFailed \<longrightarrow>
            trace s' = trace s @ fst (frame L (wsched s) (unread s)) \<and>
            e \<in> snd (frame L (wsched s) (unread s)))
       \<and> (e = ReadFailed \<longrightarrow>
            ReadErr \<in> set (sched s) \<and>
            (\<exists>tr. trace s' = trace s @ tr \<and> prefix tr (fst (frame L (wsched s) (unread s)))))"
  using assms
proof (induction L s arbitrary: s' e rule: request_loop.induct)
  case (1 L s)
  obtain s1 x where it: "request_iter L s = (s1, x)" by (cases "request_iter L s")
  note sim = request_iter_sim[OF "1.prems"(1) it]
  show ?case
  proof (cases x)
    case (Some e')
    with it "1.prems"(2) have "s' = s1" "e = e'"
      by (simp_all add: request_loop.simps[of L s])
    with sim Some show ?thesis by auto
  next
    case None
    with it "1.prems"(2) have rl: "request_loop L s1 = (s', e)"
      by (simp add: request_loop.simps[of L s])
    from sim None obtain tr where inv1: "conn_inv s1" and sub: "set (sched s1) \<subseteq> set (sched s)"
      and tr: "trace s1 = trace s @ tr"
      and fr: "frame L (wsched s) (unread s) =
                 (tr @ fst (frame L (wsched s1) (unread s1)), snd (frame L (wsched s1) (unread s1)))"
      by auto
    note ih = "1.IH"[OF it[symmetric] None inv1 rl]
    show ?thesis
    proof (cases "e = ReadFailed")
      case False
      with ih tr fr show ?thesis by simp
    next
      case True
      with ih obtain tr1 where "trace s' = trace s1 @ tr1"
        "prefix tr1 (fst (frame L (wsched s1) (unread s1)))" by auto
      then have "trace s' = trace s @ (tr @ tr1)"
        "prefix (tr @ tr1) (fst (frame L (wsched s) (unread s)))"
        using tr fr by simp_all
      then show ?thesis using True ih sub by blast
    qed
  qed
qed

lemma request_loop_no_read_error:
  assumes "conn_inv s" "ReadErr \<notin> set (sched s)"
  shows "trace (fst (request_loop L s)) = trace s @ fst (frame L (wsched s) (unread s))"
    and "snd (request_loop L s) \<in> snd (frame L (wsched s) (unread s))"
  using request_loop_frames[OF assms(1), of L "fst (request_loop L s)" "snd (request_loop L s)"] assms(2)
  by auto

lemma frame_ok:
  assumes "has_line (take MSG_BUF_SIZE bytes)"
    and "handleMessage L ws (takeWhile (\<lambda>c. c \<noteq> NL) bytes) = (0, out, ws')"
  shows "frame L ws bytes =
     (Dispatch (takeWhile (\<lambda>c. c \<noteq> NL) bytes) # map Sent out @
        fst (frame L ws' (drop (Suc (length (takeWhile (\<lambda>c. c \<noteq> NL) bytes))) bytes)),
      snd (frame L ws' (drop (Suc (length (takeWhile (\<lambda>c. c \<noteq> NL) bytes))) bytes)))"
  using assms by (subst frame.simps) (simp add: Let_def case_prod_beta)

lemma frame_failed:
  assumes "has_line (take MSG_BUF_SIZE bytes)"
    and "handleMessage L ws (takeWhile (\<lambda>c. c \<noteq> NL) bytes) = (rc, out, ws')" "rc \<noteq> 0"
  shows "frame L ws bytes = (Dispatch (takeWhile (\<lambda>c. c \<noteq> NL) bytes) # map Sent out, {MessageFailed})"
  using assms by (subst frame.simps) (simp add: Let_def)

lemma conn_inv_start:
  "length (buf s) = MSG_BUF_SIZE \<Longrightarrow> conn_inv (conn_start s p sc cl ws)"
  by (simp add: conn_inv_def conn_start_def MSG_BUF_SIZE_def)

lemma unread_start: "unread (conn_start s p sc cl ws) = p"
  by (simp add: unread_def valid_def conn_start_def)

lemma pipelined_frame:
  "frame test_platform [] (''wind,10,20'' @ [NL] @ ''wave_height,-5,30'' @ [NL]) =
     ([Dispatch ''wind,10,20'', Sent (''wind,10.000000,20.000000,270.000000,5.000000'' @ [NL]),
       Dispatch ''wave_height,-5,30'', Sent (''wave_height,-5.000000,30.000000,-999.000000'' @ [NL])],
      {EndOfStream, Drained, Blocked})"
proof -
  have h1: "handleMessage test_platform [] ''wind,10,20''
      = (0, [''wind,10.000000,20.000000,270.000000,5.000000'' @ [NL]], [])"
    by (simp add: handleMessage_def codec_defs test_defs c_str_def)
  have h2: "handleMessage test_platform [] ''wave_height,-5,30''
      = (0, [''wave_height,-5.000000,30.000000,-999.000000'' @ [NL]], [])"
    by (simp add: handleMessage_def codec_defs test_defs c_str_def)
  have f3: "frame test_platform [] [] = ([], {EndOfStream, Drained, Blocked})"
    by (simp add: frame_stop MSG_BUF_SIZE_def)
  have f2: "frame test_platform [] (''wave_height,-5,30'' @ [NL]) =
     ([Dispatch ''wave_height,-5,30'', Sent (''wave_height,-5.000000,30.000000,-999.000000'' @ [NL])],
      {EndOfStream, Drained, Blocked})"
    by (subst frame_ok[where out = "[''wave_height,-5.000000,30.000000,-999.000000'' @ [NL]]" and ws' = "[]"])
      (simp_all add: has_line_def c_str_def MSG_BUF_SIZE_def h2 f3)
  show ?thesis
    by (subst frame_ok[where out = "[''wind,10.000000,20.000000,270.000000,5.000000'' @ [NL]]" and ws' = "[]"])
      (simp_all add: has_line_def c_str_def MSG_BUF_SIZE_def h1 f2[simplified])
qed


lemma write_loop_complete:
  "write_loop ws resp = (rc, out, ws') \<Longrightarrow>
     (rc = 0 \<and> concat out = resp) \<or>
     (rc = - 1 \<and> WriteErr \<in> set ws \<and> prefix (concat out) resp)"
proof (induction ws resp arbitrary: rc out ws' rule: write_loop.induct)
  case (1 rest)
  then show ?case by auto
next
  case (2 ws rest)
  then show ?case by auto
next
  case (3 n ws rest)
  show ?case
  proof (cases "length rest \<le> n")
    case True
    with 3(2) show ?thesis by auto
  next
    case False
    obtain rc1 out1 ws1 where w: "write_loop ws (drop n rest) = (rc1, out1, ws1)"
      by (cases "write_loop ws (drop n rest)")
    with 3(2) False have e: "rc = rc1" "out = take n rest # out1" "ws' = ws1" by simp_all
    from 3(1)[OF False w] have
      "(rc1 = 0 \<and> concat out1 = drop n rest) \<or>
       (rc1 = - 1 \<and> WriteErr \<in> set ws \<and> prefix (concat out1) (drop n rest))" .
    then show ?thesis
    proof
      assume "rc1 = 0 \<and> concat out1 = drop n rest"
      then show ?thesis using e by simp
    next
      assume a: "rc1 = - 1 \<and> WriteErr \<in> set ws \<and> prefix (concat out1) (drop n rest)"
      then have "prefix (take n rest @ concat out1) (take n rest @ drop n rest)"
        by (simp only: same_prefix_prefix)
      then show ?thesis using e a by simp
    qed
  qed
qed

lemma handleMessage_zero:
  assumes "handleMessage L ws l = (0, out, ws')"
  shows "\<exists>r. handleMessage_buf L l = Some r \<and> concat out = c_str r"
proof (cases "handleMessage_buf L l")
  case None
  with assms show ?thesis
    by (auto simp: handleMessage_def split: prod.splits if_splits)
next
  case (Some r)
  with assms have "write_loop ws (c_str r) = (0, out, ws')" by (simp add: handleMessage_def)
  from write_loop_complete[OF this] Some show ?thesis by simp
qed

lemma handleMessage_failed:
  assumes "handleMessage_buf L l = None"
  shows "handleMessage L ws l =
     (- 1, (case ws of [] \<Rightarrow> [''error'' @ [NL]] | WriteErr # _ \<Rightarrow> []
            | Wrote n # _ \<Rightarrow> [take n (''error'' @ [NL])]), tl ws)"
proof (cases ws)
  case Nil
  with assms show ?thesis by (simp add: handleMessage_def)
next
  case (Cons w ws1)
  with assms show ?thesis by (cases w) (simp_all add: handleMessage_def)
qed

lemma read_whole:
  assumes "p \<noteq> []" "length p \<le> count"
  shows "fst (read_fd (conn_start s p [] cl ws) count) = Some (int (length p), p)"
  using assms by (simp add: conn_start_def Let_def min_def)

lemma has_line_take:
  assumes "NL \<notin> set l" "NUL \<notin> set l" "length l < n"
  shows "has_line (take n (l @ NL # r))" "takeWhile (\<lambda>c. c \<noteq> NL) (l @ NL # r) = l"
proof -
  have "take n (l @ NL # r) = l @ NL # take (n - Suc (length l)) r"
    using assms(3) by (simp add: take_Cons')
  moreover have "has_line (l @ NL # x)" for x
    using assms(1,2) by (induction l) (auto simp: has_line_Cons)
  ultimately show "has_line (take n (l @ NL # r))" by simp
  show "takeWhile (\<lambda>c. c \<noteq> NL) (l @ NL # r) = l"
    using assms(1) by (induction l) auto
qed

lemma serve_from_closes:
  assumes "request_loop L s = (s', e)" "e \<noteq> Blocked" "e \<noteq> Spinning"
  shows "serve_from L s = (s'\<lparr>trace := trace s' @ [Closed]\<rparr>, e)"
  using assms by (simp add: serve_from_def close_fd_def)

lemma failed_line_serve:
  assumes "conn_inv s" "ReadErr \<notin> set (sched s)"
    and "unread s = line @ NL # rest" "NL \<notin> set line" "NUL \<notin> set line"
    and "length line < MSG_BUF_SIZE"
    and "handleMessage_buf L line = None"
  shows "handleMessage L [] line = (- 1, [''error'' @ [NL]], [])
      \<and> fst (handleMessage L ws line) = - 1
      \<and> snd (serve_from L s) = MessageFailed
      \<and> trace (fst (serve_from L s)) =
           trace s @ Dispatch line # map Sent (fst (snd (handleMessage L (wsched s) line))) @ [Closed]
      \<and> (wsched s = [] \<longrightarrow>
           trace (fst (serve_from L s)) = trace s @ [Dispatch line, Sent (''error'' @ [NL]), Closed])"
proof -
  note hf = handleMessage_failed[OF assms(7)]
  obtain out ws' where hm: "handleMessage L (wsched s) line = (- 1, out, ws')"
    using hf[of "wsched s"] by simp
  have hl: "has_line (take MSG_BUF_SIZE (unread s))"
    and tw: "takeWhile (\<lambda>c. c \<noteq> NL) (unread s) = line"
    unfolding assms(3) using has_line_take[OF assms(4,5,6)] by simp_all
  have fr: "frame L (wsched s) (unread s) = (Dispatch line # map Sent out, {MessageFailed})"
    using frame_failed[OF hl, of L "wsched s" "- 1" out ws'] hm by (simp add: tw)
  obtain s' e where rl: "request_loop L s = (s', e)" by (cases "request_loop L s")
  from request_loop_no_read_error[OF assms(1,2), of L] rl fr
  have e: "e = MessageFailed" and tr: "trace s' = trace s @ Dispatch line # map Sent out"
    by simp_all
  have sf: "serve_from L s = (s'\<lparr>trace := trace s' @ [Closed]\<rparr>, MessageFailed)"
    using serve_from_closes[OF rl] e by simp
  have a: "handleMessage L [] line = (- 1, [''error'' @ [NL]], [])" using hf[of "[]"] by simp
  have b: "fst (handleMessage L ws line) = - 1" using hf[of ws] by simp
  have c: "wsched s = [] \<longrightarrow> out = [''error'' @ [NL]]" using hm a by auto
  show ?thesis using a b c sf tr hm by simp
qed

lemma counter_inc_other:
  "k \<noteq> j \<Longrightarrow> counter_inc k c ! j = c ! j" "length (counter_inc k c) = length c"
  by (simp_all add: counter_inc_def)

lemma counter_inc_same:
  "k < length c \<Longrightarrow> counter_inc k c ! k = c ! k + 1"
  by (simp add: counter_inc_def)

lemma read_phase_counter:
  assumes "read_phase s = (s1, r)"
  shows "counter s1 = counter s \<or> counter s1 = counter_inc COUNTER_READ (counter s)
     \<or> counter s1 = counter_inc COUNTER_READ_FAIL (counter_inc COUNTER_READ (counter s))"
proof (cases "eos s")
  case True
  with assms show ?thesis by (simp add: read_phase_def)
next
  case False
  obtain ready sa where sel: "select_fd s = (ready, sa)" by (cases "select_fd s")
  note ss = select_fd_sim[OF sel]
  show ?thesis
  proof (cases "ready \<or> readyBytes sa = 0")
    case nr: False
    with assms False sel have "s1 = sa" by (auto simp: read_phase_def)
    then show ?thesis using ss by simp
  next
    case rd: True
    obtain res sb where rf: "read_fd sa (MSG_BUF_SIZE - readyBytes sa) = (res, sb)"
      by (cases "read_fd sa (MSG_BUF_SIZE - readyBytes sa)")
    show ?thesis
    proof (cases res)
      case None
      with assms False sel rd rf have "s1 = sb" by (auto simp: read_phase_def)
      moreover have "counter sb = counter sa" using rf None by (auto simp: Let_def split: list.splits rd.splits if_splits)
      ultimately show ?thesis using ss by simp
    next
      case (Some kb)
      obtain k bytes where kb: "kb = (k, bytes)" by (cases kb)
      note rs = read_fd_sim[OF rf[unfolded Some kb]]
      define s3 where "s3 = sb\<lparr>buf := store (buf sb) (readyBytes sb) bytes,
                 counter := counter_inc COUNTER_READ (counter sb)\<rparr>"
      have "s1 = (if k < 0 then s3\<lparr>counter := counter_inc COUNTER_READ_FAIL (counter s3)\<rparr>
                  else if k = 0 then s3\<lparr>eos := True\<rparr> else s3)"
        using assms False sel rd rf Some kb
        by (auto simp: read_phase_def Let_def s3_def split: if_splits)
      moreover have "counter s3 = counter_inc COUNTER_READ (counter s)"
        using rs ss by (simp add: s3_def)
      ultimately show ?thesis by auto
    qed
  qed
qed

lemma dispatch_counter:
  assumes "dispatch L s i = (s', x)"
  shows "(counter s' = counter_inc COUNTER_MESSAGE (counter s)
      \<or> counter s' = counter_inc COUNTER_MESSAGE_FAIL (counter_inc COUNTER_MESSAGE (counter s)))
     \<and> x \<noteq> Some DataTooLong"
  using assms unfolding dispatch_def
  by (auto simp: Let_def split: prod.splits if_splits)

lemmas COUNTER_defs = COUNTER_ACCEPT_def COUNTER_ACCEPT_FAIL_def COUNTER_READ_def
  COUNTER_READ_FAIL_def COUNTER_DATA_TOO_LONG_def COUNTER_MESSAGE_def COUNTER_MESSAGE_FAIL_def

lemma request_iter_counter:
  assumes "request_iter L s = (s', x)"
  shows "length (counter s') = length (counter s) \<and>
     counter s' ! COUNTER_DATA_TOO_LONG =
       (if x = Some DataTooLong \<and> COUNTER_DATA_TOO_LONG < length (counter s)
        then counter s ! COUNTER_DATA_TOO_LONG + 1 else counter s ! COUNTER_DATA_TOO_LONG)"
proof (cases "readyBytes s = MSG_BUF_SIZE")
  case True
  with assms show ?thesis
    by (auto simp: request_iter_def counter_inc_def list_update_beyond)
next
  case nf: False
  obtain s1 r where rp: "read_phase s = (s1, r)" by (cases "read_phase s")
  from read_phase_counter[OF rp]
  have c1: "length (counter s1) = length (counter s) \<and>
      counter s1 ! COUNTER_DATA_TOO_LONG = counter s ! COUNTER_DATA_TOO_LONG"
    by (auto simp: counter_inc_def COUNTER_defs)
  show ?thesis
  proof (cases r)
    case (Inl e)
    with assms nf rp have "x = Some e" "s' = s1" by (auto simp: request_iter_def)
    moreover have "e \<noteq> DataTooLong" using read_phase_exit[OF rp[unfolded Inl]] by auto
    ultimately show ?thesis using c1 by simp
  next
    case (Inr rb)
    obtain i found where sc: "scan_newline (buf s1) (rb + readyBytes s1) 0 = (i, found)"
      by (cases "scan_newline (buf s1) (rb + readyBytes s1) 0")
    define s2 where "s2 = s1\<lparr>readyBytes := readyBytes s1 + rb\<rparr>"
    have c2: "counter s2 = counter s1" by (simp add: s2_def)
    show ?thesis
    proof (cases found)
      case False
      with assms nf rp Inr sc have "s' = s2" "x \<noteq> Some DataTooLong"
        by (auto simp: request_iter_def Let_def s2_def split: if_splits)
      then show ?thesis using c1 c2 by simp
    next
      case True
      with assms nf rp Inr sc have "dispatch L s2 i = (s', x)"
        by (auto simp: request_iter_def Let_def s2_def)
      from dispatch_counter[OF this] show ?thesis using c1 c2
        by (auto simp: counter_inc_def COUNTER_defs)
    qed
  qed
qed

lemma request_loop_counter:
  assumes "request_loop L s = (s', e)"
  shows "length (counter s') = length (counter s) \<and>
     counter s' ! COUNTER_DATA_TOO_LONG =
       (if e = DataTooLong \<and> COUNTER_DATA_TOO_LONG < length (counter s)
        then counter s ! COUNTER_DATA_TOO_LONG + 1 else counter s ! COUNTER_DATA_TOO_LONG)"
  using assms
proof (induction L s arbitrary: s' e rule: request_loop.induct)
  case (1 L s)
  obtain s1 x where it: "request_iter L s = (s1, x)" by (cases "request_iter L s")
  note c = request_iter_counter[OF it]
  show ?case
  proof (cases x)
    case (Some e')
    with it "1.prems" have "s' = s1" "e = e'"
      by (simp_all add: request_loop.simps[of L s])
    with c Some show ?thesis by simp
  next
    case None
    with it "1.prems" have rl: "request_loop L s1 = (s', e)"
      by (simp add: request_loop.simps[of L s])
    note ih = "1.IH"[OF it[symmetric] None rl]
    show ?thesis using ih c None by simp
  qed
qed

lemma request_iter_full:
  "readyBytes s = MSG_BUF_SIZE \<Longrightarrow>
     request_iter L s = (s\<lparr>counter := counter_inc COUNTER_DATA_TOO_LONG (counter s)\<rparr>, Some DataTooLong)"
  by (simp add: request_iter_def)

lemma has_line_mem: "has_line xs \<Longrightarrow> NL \<in> set xs"
  by (auto simp: has_line_def c_str_def dest: set_takeWhileD)

lemma nul_blocks_line:
  "NL \<notin> set l \<Longrightarrow> \<not> has_line (take m (l @ NUL # rest))"
proof (induction l arbitrary: m)
  case Nil
  then show ?case by (cases m) (simp_all add: has_line_Cons)
next
  case (Cons c l)
  then show ?case by (cases m) (auto simp: has_line_Cons)
qed

lemma scan_stops_at_nul:
  assumes "n \<le> length b" "j < n" "b ! j = NUL" "\<forall>k<j. b ! k \<noteq> NL"
  shows "snd (scan_newline b n 0) = False \<and> fst (scan_newline b n 0) \<le> j
     \<and> b ! fst (scan_newline b n 0) = NUL"
proof -
  let ?w = "take n b"
  have wj: "j < length ?w" "?w ! j = NUL" using assms by simp_all
  have le: "length (c_str ?w) \<le> j"
  proof (rule ccontr)
    assume "\<not> length (c_str ?w) \<le> j"
    then have jl: "j < length (takeWhile (\<lambda>c. c \<noteq> NUL) ?w)" by (simp add: c_str_def)
    then have "takeWhile (\<lambda>c. c \<noteq> NUL) ?w ! j = ?w ! j" by (rule takeWhile_nth)
    moreover have "takeWhile (\<lambda>c. c \<noteq> NUL) ?w ! j \<in> set (takeWhile (\<lambda>c. c \<noteq> NUL) ?w)"
      using jl by (rule nth_mem)
    ultimately show False using wj by (auto dest: set_takeWhileD)
  qed
  have "NL \<notin> set (c_str ?w)"
  proof
    assume "NL \<in> set (c_str ?w)"
    then obtain k where k: "k < length (c_str ?w)" "c_str ?w ! k = NL"
      by (auto simp: in_set_conv_nth)
    then have "?w ! k = NL" by (simp add: c_str_def takeWhile_nth)
    moreover have "k < j" using k le by simp
    ultimately show False using assms by simp
  qed
  then have nh: "\<not> has_line ?w" by (simp add: has_line_def)
  have sc: "scan_newline b n 0 = (length (c_str ?w), False)"
    using scan_newline_valid[OF assms(1)] nh by simp
  have "length (takeWhile (\<lambda>c. c \<noteq> NUL) ?w) < length ?w" using le wj by (simp add: c_str_def)
  then have "\<not> (?w ! length (takeWhile (\<lambda>c. c \<noteq> NUL) ?w) \<noteq> NUL)"
    by (rule nth_length_takeWhile)
  then have "b ! length (c_str ?w) = NUL" using le wj by (simp add: c_str_def)
  then show ?thesis using sc le by simp
qed












section \<open>The claims on the connection\<close>

text \<open>
  C8. The trace of the request loop is the framed trace of the bytes not yet handed
  over, cut short only where a read fails: the requests are handed to
  \<^verbatim>\<open>handleMessage\<close> in the order of their lines, and the writes of one request all
  come before the next request is handed over. \<^verbatim>\<open>handleMessage\<close> returns 0, and the
  loop goes on to the next line, only when the writes together are the whole response;
  the write loop either writes the whole response, in as many calls as it takes, or
  stops at a call that fails, with part of the response written, and returns -1. The
  two requests \<^verbatim>\<open>wind,10,20\<close> and \<^verbatim>\<open>wave_height,-5,30\<close> arriving in one read are
  answered in that order with one line each.
\<close>

theorem requests_in_order:
  assumes "conn_inv s"
  shows "(\<exists>tr. trace (fst (request_loop L s)) = trace s @ tr \<and>
            prefix tr (fst (frame L (wsched s) (unread s))) \<and>
            (ReadErr \<notin> set (sched s) \<longrightarrow> tr = fst (frame L (wsched s) (unread s))))
      \<and> (\<forall>ws l out ws'. handleMessage L ws l = (0, out, ws') \<longrightarrow>
            (\<exists>r. handleMessage_buf L l = Some r \<and> concat out = c_str r))
      \<and> (\<forall>ws resp rc out ws'. write_loop ws resp = (rc, out, ws') \<longrightarrow>
            (rc = 0 \<and> concat out = resp) \<or>
            (rc = - 1 \<and> WriteErr \<in> set ws \<and> prefix (concat out) resp))"
proof -
  obtain s' e where rl: "request_loop L s = (s', e)" by (cases "request_loop L s")
  note fr = request_loop_frames[OF assms rl]
  have "\<exists>tr. trace s' = trace s @ tr \<and>
            prefix tr (fst (frame L (wsched s) (unread s))) \<and>
            (ReadErr \<notin> set (sched s) \<longrightarrow> tr = fst (frame L (wsched s) (unread s)))"
  proof (cases "e = ReadFailed")
    case True
    with fr show ?thesis by auto
  next
    case False
    with fr show ?thesis by auto
  qed
  then have a: "\<exists>tr. trace (fst (request_loop L s)) = trace s @ tr \<and>
            prefix tr (fst (frame L (wsched s) (unread s))) \<and>
            (ReadErr \<notin> set (sched s) \<longrightarrow> tr = fst (frame L (wsched s) (unread s)))"
    using rl by simp
  have b: "\<forall>ws l out ws'. handleMessage L ws l = (0, out, ws') \<longrightarrow>
            (\<exists>r. handleMessage_buf L l = Some r \<and> concat out = c_str r)"
    using handleMessage_zero by blast
  have c: "\<forall>ws resp rc out ws'. write_loop ws resp = (rc, out, ws') \<longrightarrow>
            (rc = 0 \<and> concat out = resp) \<or>
            (rc = - 1 \<and> WriteErr \<in> set ws \<and> prefix (concat out) resp)"
    using write_loop_complete by blast
  from a b c show ?thesis by (intro conjI)
qed


theorem requests_in_order_witness:
  "trace (fst (request_loop test_platform
      (conn_start idle_server (''wind,10,20'' @ [NL] @ ''wave_height,-5,30'' @ [NL]) [] True [])))
   = [Dispatch ''wind,10,20'', Sent (''wind,10.000000,20.000000,270.000000,5.000000'' @ [NL]),
      Dispatch ''wave_height,-5,30'', Sent (''wave_height,-5.000000,30.000000,-999.000000'' @ [NL])]"
proof -
  let ?p = "''wind,10,20'' @ [NL] @ ''wave_height,-5,30'' @ [NL]"
  let ?s = "conn_start idle_server ?p [] True []"
  have inv: "conn_inv ?s" by (rule conn_inv_start) (simp add: idle_server_def)
  have st: "trace ?s = []" "wsched ?s = []" "sched ?s = []"
    by (simp_all add: conn_start_def idle_server_def)
  from requests_in_order[OF inv, of test_platform]
  obtain tr where "trace (fst (request_loop test_platform ?s)) = trace ?s @ tr"
    "ReadErr \<notin> set (sched ?s) \<longrightarrow> tr = fst (frame test_platform (wsched ?s) (unread ?s))"
    by blast
  then show ?thesis
    unfolding st unread_start pipelined_frame by simp
qed

text \<open>
  C3. For every sequence of bytes a client sends on a new connection, every way of
  delivering it in which no read fails (any number of polls that find nothing, any
  number of bytes per read) gives the trace that the delivery with an empty schedule
  gives, namely the framed trace of the sequence: the same request lines handed to
  \<^verbatim>\<open>handleMessage\<close> and the same bytes written. With the empty schedule the first read
  returns the whole sequence when it fits the buffer.
\<close>

theorem fragmentation_independence:
  assumes "length (buf s) = MSG_BUF_SIZE" "ReadErr \<notin> set sc"
  shows "trace (fst (request_loop L (conn_start s p sc cl ws)))
           = trace (fst (request_loop L (conn_start s p [] cl' ws)))
      \<and> trace (fst (request_loop L (conn_start s p sc cl ws))) = trace s @ fst (frame L ws p)
      \<and> (p \<noteq> [] \<and> length p \<le> MSG_BUF_SIZE \<longrightarrow>
           fst (read_fd (conn_start s p [] cl' ws) (MSG_BUF_SIZE - readyBytes (conn_start s p [] cl' ws)))
             = Some (int (length p), p))"
proof -
  have a: "trace (fst (request_loop L (conn_start s p sc' c ws))) = trace s @ fst (frame L ws p)"
    if "ReadErr \<notin> set sc'" for sc' c
  proof -
    have inv: "conn_inv (conn_start s p sc' c ws)" by (rule conn_inv_start[OF assms(1)])
    have ne: "ReadErr \<notin> set (sched (conn_start s p sc' c ws))"
      using that by (simp add: conn_start_def)
    have st: "trace (conn_start s p sc' c ws) = trace s" "wsched (conn_start s p sc' c ws) = ws"
      by (simp_all add: conn_start_def)
    from request_loop_no_read_error(1)[OF inv ne, of L] show ?thesis
      by (simp add: unread_start st)
  qed
  have b: "p \<noteq> [] \<and> length p \<le> MSG_BUF_SIZE \<longrightarrow>
           fst (read_fd (conn_start s p [] cl' ws) (MSG_BUF_SIZE - readyBytes (conn_start s p [] cl' ws)))
             = Some (int (length p), p)"
    using read_whole[of p "MSG_BUF_SIZE" s cl' ws] by (simp add: conn_start_def)
  show ?thesis using a[OF assms(2), of cl] a[of "[]" cl'] b by simp
qed

theorem fragmentation_independence_witness:
  "trace (fst (request_loop test_platform
      (conn_start idle_server (''wind,10,20'' @ [NL]) (replicate 11 (Ready 0)) True [])))
   = trace (fst (request_loop test_platform
      (conn_start idle_server (''wind,10,20'' @ [NL]) [] True [])))
   \<and> trace (fst (request_loop test_platform
      (conn_start idle_server (''wind,10,20'' @ [NL]) (replicate 11 (Ready 0)) True [])))
   = [Dispatch ''wind,10,20'', Sent (''wind,10.000000,20.000000,270.000000,5.000000'' @ [NL])]"
proof -
  have l: "length (buf idle_server) = MSG_BUF_SIZE" by (simp add: idle_server_def)
  have n: "ReadErr \<notin> set (replicate 11 (Ready 0))" by simp
  have h1: "handleMessage test_platform [] ''wind,10,20''
      = (0, [''wind,10.000000,20.000000,270.000000,5.000000'' @ [NL]], [])"
    by (simp add: handleMessage_def codec_defs test_defs c_str_def)
  have f3: "frame test_platform [] [] = ([], {EndOfStream, Drained, Blocked})"
    by (simp add: frame_stop MSG_BUF_SIZE_def)
  have f: "frame test_platform [] (''wind,10,20'' @ [NL]) =
     ([Dispatch ''wind,10,20'', Sent (''wind,10.000000,20.000000,270.000000,5.000000'' @ [NL])],
      {EndOfStream, Drained, Blocked})"
    by (subst frame_ok[where out = "[''wind,10.000000,20.000000,270.000000,5.000000'' @ [NL]]" and ws' = "[]"])
      (simp_all add: has_line_def c_str_def MSG_BUF_SIZE_def h1 f3)
  have t: "trace idle_server = []" by (simp add: idle_server_def)
  note th = fragmentation_independence[OF l n, where L = test_platform
      and p = "''wind,10,20'' @ [NL]" and cl = True and ws = "[]" and cl' = True]
  note e1 = th[THEN conjunct1]
  note e2 = th[THEN conjunct2, THEN conjunct1, unfolded f t fst_conv append_Nil]
  show ?thesis using e1 e2 by (intro conjI)
qed


text \<open>
  C1, as the code has it. A request line that fails parsing or validation makes
  \<^verbatim>\<open>handleMessage\<close> call \<^verbatim>\<open>write\<close> once, with the line \<^verbatim>\<open>error\<close>, and return -1
  whether or not that write succeeds; the request loop then leaves the loop and the
  connection is closed: whatever follows the failed line on the connection is not
  answered. The counterexample is a connection that sends \<^verbatim>\<open>bogus,1,2\<close> and then the
  well-formed \<^verbatim>\<open>wind,10,20\<close>: the server writes \<^verbatim>\<open>error\<close> and closes.
\<close>

theorem failed_request_ends_connection:
  assumes "conn_inv s" "ReadErr \<notin> set (sched s)"
    and "unread s = line @ NL # rest" "NL \<notin> set line" "NUL \<notin> set line"
    and "length line < MSG_BUF_SIZE"
    and "handleMessage_buf L line = None"
  shows "handleMessage L [] line = (- 1, [''error'' @ [NL]], [])
      \<and> fst (handleMessage L ws line) = - 1
      \<and> snd (serve_from L s) = MessageFailed
      \<and> trace (fst (serve_from L s)) =
           trace s @ Dispatch line # map Sent (fst (snd (handleMessage L (wsched s) line))) @ [Closed]
      \<and> (wsched s = [] \<longrightarrow>
           trace (fst (serve_from L s)) = trace s @ [Dispatch line, Sent (''error'' @ [NL]), Closed])"
  using assms by (rule failed_line_serve)

theorem failed_request_ends_connection_witness:
  "trace (fst (serve_from test_platform
      (conn_start idle_server (''sea_ice,91.0,0.0'' @ NL # ''wind,10,20'' @ [NL]) [] True [])))
   = [Dispatch ''sea_ice,91.0,0.0'', Sent (''error'' @ [NL]), Closed]"
proof -
  let ?s = "conn_start idle_server (''sea_ice,91.0,0.0'' @ NL # ''wind,10,20'' @ [NL]) [] True []"
  have inv: "conn_inv ?s" by (rule conn_inv_start) (simp add: idle_server_def)
  have st: "trace ?s = []" "wsched ?s = []" "ReadErr \<notin> set (sched ?s)"
    by (simp_all add: conn_start_def idle_server_def)
  have u: "unread ?s = ''sea_ice,91.0,0.0'' @ NL # ''wind,10,20'' @ [NL]" by (rule unread_start)
  have n: "NL \<notin> set ''sea_ice,91.0,0.0''" "NUL \<notin> set ''sea_ice,91.0,0.0''"
    "length ''sea_ice,91.0,0.0'' < MSG_BUF_SIZE"
    by (simp_all add: MSG_BUF_SIZE_def)
  have h: "handleMessage_buf test_platform ''sea_ice,91.0,0.0'' = None"
    by (simp add: codec_defs test_defs)
  note th = failed_request_ends_connection[OF inv st(3) u n h, of "[]"]
  from th st(2) have "trace (fst (serve_from test_platform ?s)) =
      trace ?s @ [Dispatch ''sea_ice,91.0,0.0'', Sent (''error'' @ [NL]), Closed]"
    by blast
  then show ?thesis unfolding st(1) by simp
qed

theorem error_reply_counterexample:
  "trace (fst (serve_from test_platform
      (conn_start idle_server (''bogus,1,2'' @ NL # ''wind,10,20'' @ [NL]) [] True [])))
     = [Dispatch ''bogus,1,2'', Sent (''error'' @ [NL]), Closed]
   \<and> snd (serve_from test_platform
      (conn_start idle_server (''bogus,1,2'' @ NL # ''wind,10,20'' @ [NL]) [] True [])) = MessageFailed
   \<and> handleMessage_buf test_platform ''wind,10,20''
     = Some (''wind,10.000000,20.000000,270.000000,5.000000'' @ [NL])"
proof -
  let ?s = "conn_start idle_server (''bogus,1,2'' @ NL # ''wind,10,20'' @ [NL]) [] True []"
  have inv: "conn_inv ?s" by (rule conn_inv_start) (simp add: idle_server_def)
  have st: "trace ?s = []" "wsched ?s = []" "ReadErr \<notin> set (sched ?s)"
    by (simp_all add: conn_start_def idle_server_def)
  have u: "unread ?s = ''bogus,1,2'' @ NL # ''wind,10,20'' @ [NL]" by (rule unread_start)
  have n: "NL \<notin> set ''bogus,1,2''" "NUL \<notin> set ''bogus,1,2''"
    "length ''bogus,1,2'' < MSG_BUF_SIZE"
    by (simp_all add: MSG_BUF_SIZE_def)
  have h: "handleMessage_buf test_platform ''bogus,1,2'' = None"
    by (simp add: codec_defs test_defs)
  note th = failed_line_serve[OF inv st(3) u n h, of "[]"]
  from th st(2) have a: "trace (fst (serve_from test_platform ?s)) =
      trace ?s @ [Dispatch ''bogus,1,2'', Sent (''error'' @ [NL]), Closed]"
    by blast
  from th have b: "snd (serve_from test_platform ?s) = MessageFailed" by blast
  have w: "handleMessage_buf test_platform ''wind,10,20''
     = Some (''wind,10.000000,20.000000,270.000000,5.000000'' @ [NL])"
    by (simp add: codec_defs test_defs)
  show ?thesis using a[unfolded st(1) append_Nil] b w by (intro conjI)
qed

text \<open>
  C5. At the head of an iteration with \<^verbatim>\<open>readyBytes\<close> equal to the size of the
  buffer (which the scan of the iteration before filled without finding a newline, by
  \<open>conn_inv\<close>) the request loop increments the counter \<^verbatim>\<open>data_too_long\<close> and leaves
  the loop; nothing is handed to \<^verbatim>\<open>handleMessage\<close> or written, and the connection is
  closed once. So a connection on which at least \<open>MSG_BUF_SIZE\<close> bytes are
  to be read and the first \<open>MSG_BUF_SIZE\<close> of them hold no newline that the scan reaches
  ends that way, however the bytes arrive, when no read fails.
\<close>

theorem oversized_message:
  "(readyBytes s = MSG_BUF_SIZE \<longrightarrow>
      request_iter L s =
        (s\<lparr>counter := counter_inc COUNTER_DATA_TOO_LONG (counter s)\<rparr>, Some DataTooLong)
      \<and> serve_from L s =
        (s\<lparr>counter := counter_inc COUNTER_DATA_TOO_LONG (counter s),
            trace := trace s @ [Closed]\<rparr>, DataTooLong)
      \<and> (COUNTER_DATA_TOO_LONG < length (counter s) \<longrightarrow>
           counter_inc COUNTER_DATA_TOO_LONG (counter s) ! COUNTER_DATA_TOO_LONG
             = counter s ! COUNTER_DATA_TOO_LONG + 1))
   \<and> (conn_inv s \<and> ReadErr \<notin> set (sched s) \<and> MSG_BUF_SIZE \<le> length (unread s)
        \<and> \<not> has_line (take MSG_BUF_SIZE (unread s)) \<longrightarrow>
      snd (serve_from L s) = DataTooLong
      \<and> trace (fst (serve_from L s)) = trace s @ [Closed]
      \<and> (COUNTER_DATA_TOO_LONG < length (counter s) \<longrightarrow>
           counter (fst (serve_from L s)) ! COUNTER_DATA_TOO_LONG
             = counter s ! COUNTER_DATA_TOO_LONG + 1))"
proof (intro conjI impI)
  assume full: "readyBytes s = MSG_BUF_SIZE"
  show it: "request_iter L s =
        (s\<lparr>counter := counter_inc COUNTER_DATA_TOO_LONG (counter s)\<rparr>, Some DataTooLong)"
    using full by (rule request_iter_full)
  then have "request_loop L s =
        (s\<lparr>counter := counter_inc COUNTER_DATA_TOO_LONG (counter s)\<rparr>, DataTooLong)"
    by (simp add: request_loop.simps[of L s])
  then show "serve_from L s =
        (s\<lparr>counter := counter_inc COUNTER_DATA_TOO_LONG (counter s),
            trace := trace s @ [Closed]\<rparr>, DataTooLong)"
    by (simp add: serve_from_def close_fd_def)
next
  assume "COUNTER_DATA_TOO_LONG < length (counter s)"
  then show "counter_inc COUNTER_DATA_TOO_LONG (counter s) ! COUNTER_DATA_TOO_LONG
             = counter s ! COUNTER_DATA_TOO_LONG + 1"
    by (rule counter_inc_same)
next
  assume a: "conn_inv s \<and> ReadErr \<notin> set (sched s) \<and> MSG_BUF_SIZE \<le> length (unread s)
        \<and> \<not> has_line (take MSG_BUF_SIZE (unread s))"
  then have fr: "frame L (wsched s) (unread s) = ([], {DataTooLong})"
    by (simp add: frame_stop)
  obtain s' e where rl: "request_loop L s = (s', e)" by (cases "request_loop L s")
  from a request_loop_no_read_error[of s L] rl fr
  have e: "e = DataTooLong" and tr: "trace s' = trace s" by simp_all
  have sf: "serve_from L s = (s'\<lparr>trace := trace s' @ [Closed]\<rparr>, DataTooLong)"
    using serve_from_closes[OF rl] e by simp
  show "snd (serve_from L s) = DataTooLong" using sf by simp
  show "trace (fst (serve_from L s)) = trace s @ [Closed]" using sf tr by simp
  assume "COUNTER_DATA_TOO_LONG < length (counter s)"
  then show "counter (fst (serve_from L s)) ! COUNTER_DATA_TOO_LONG
             = counter s ! COUNTER_DATA_TOO_LONG + 1"
    using request_loop_counter[OF rl] e sf by simp
qed


theorem oversized_message_witness:
  "serve_from test_platform (idle_server\<lparr>readyBytes := MSG_BUF_SIZE\<rparr>)
     = (idle_server\<lparr>readyBytes := MSG_BUF_SIZE, counter := [0, 0, 0, 0, 1, 0, 0],
          trace := [Closed]\<rparr>, DataTooLong)
   \<and> snd (serve_from test_platform
        (conn_start idle_server (replicate 1100 (CHR ''a'')) [] True [])) = DataTooLong
   \<and> trace (fst (serve_from test_platform
        (conn_start idle_server (replicate 1100 (CHR ''a'')) [] True []))) = [Closed]
   \<and> counter (fst (serve_from test_platform
        (conn_start idle_server (replicate 1100 (CHR ''a'')) [] True []))) ! COUNTER_DATA_TOO_LONG = 1"
proof -
  let ?s = "idle_server\<lparr>readyBytes := MSG_BUF_SIZE\<rparr>"
  let ?t = "conn_start idle_server (replicate 1100 (CHR ''a'')) [] True []"
  have full: "readyBytes ?s = MSG_BUF_SIZE" by simp
  have c: "counter_inc COUNTER_DATA_TOO_LONG (counter ?s) = [0, 0, 0, 0, 1, 0, 0]"
    "trace ?s = []"
    by (simp_all add: idle_server_def counter_inc_def COUNTER_DATA_TOO_LONG_def)
  have a: "serve_from test_platform ?s =
        (?s\<lparr>counter := counter_inc COUNTER_DATA_TOO_LONG (counter ?s),
            trace := trace ?s @ [Closed]\<rparr>, DataTooLong)"
    using oversized_message[of ?s test_platform] full by blast
  have inv: "conn_inv ?t" by (rule conn_inv_start) (simp add: idle_server_def)
  have st: "trace ?t = []" "ReadErr \<notin> set (sched ?t)" "counter ?t = [0, 0, 0, 0, 0, 0, 0]"
    by (simp_all add: conn_start_def idle_server_def)
  have u: "unread ?t = replicate 1100 (CHR ''a'')" by (rule unread_start)
  have len: "MSG_BUF_SIZE \<le> length (unread ?t)" unfolding u by (simp add: MSG_BUF_SIZE_def)
  have nl: "\<not> has_line (take MSG_BUF_SIZE (unread ?t))"
  proof
    assume "has_line (take MSG_BUF_SIZE (unread ?t))"
    then have "NL \<in> set (take MSG_BUF_SIZE (unread ?t))" by (rule has_line_mem)
    then have "NL \<in> set (unread ?t)" by (rule in_set_takeD)
    then show False unfolding u by simp
  qed
  have cl: "COUNTER_DATA_TOO_LONG < length (counter ?t)"
    unfolding st by (simp add: COUNTER_DATA_TOO_LONG_def)
  have b: "snd (serve_from test_platform ?t) = DataTooLong
      \<and> trace (fst (serve_from test_platform ?t)) = trace ?t @ [Closed]
      \<and> counter (fst (serve_from test_platform ?t)) ! COUNTER_DATA_TOO_LONG
             = counter ?t ! COUNTER_DATA_TOO_LONG + 1"
    using oversized_message[of ?t test_platform] inv st(2) len nl cl by blast
  have d: "counter ?t ! COUNTER_DATA_TOO_LONG + 1 = 1"
    unfolding st by (simp add: COUNTER_DATA_TOO_LONG_def)
  show ?thesis using a b unfolding c st(1) d by simp
qed

text \<open>
  C10. The scan ends at the first zero byte of the bytes that count: when a zero byte
  comes before any newline no newline is found. Once the bytes not yet handed over
  start with such a line, nothing is handed to \<^verbatim>\<open>handleMessage\<close> any more and nothing
  is written: the request loop spins, or finds the buffer full, or sees the end of the
  stream; a read that fails also ends it.
\<close>

theorem embedded_nul_never_dispatched:
  "(n \<le> length b \<and> j < n \<and> b ! j = NUL \<and> (\<forall>k<j. b ! k \<noteq> NL) \<longrightarrow>
      snd (scan_newline b n 0) = False \<and> fst (scan_newline b n 0) \<le> j
      \<and> b ! fst (scan_newline b n 0) = NUL)
   \<and> (conn_inv s \<and> unread s = l @ NUL # rest \<and> NL \<notin> set l \<longrightarrow>
      trace (fst (request_loop L s)) = trace s
      \<and> snd (request_loop L s) \<in> {Spinning, DataTooLong, EndOfStream, ReadFailed}
      \<and> (ReadErr \<notin> set (sched s) \<longrightarrow>
           snd (request_loop L s) \<in> {Spinning, DataTooLong, EndOfStream}))"
proof -
  have A: "snd (scan_newline b n 0) = False \<and> fst (scan_newline b n 0) \<le> j
      \<and> b ! fst (scan_newline b n 0) = NUL"
    if "n \<le> length b \<and> j < n \<and> b ! j = NUL \<and> (\<forall>k<j. b ! k \<noteq> NL)"
    using that scan_stops_at_nul[of n b j] by blast
  have B: "trace (fst (request_loop L s)) = trace s
      \<and> snd (request_loop L s) \<in> {Spinning, DataTooLong, EndOfStream, ReadFailed}
      \<and> (ReadErr \<notin> set (sched s) \<longrightarrow>
           snd (request_loop L s) \<in> {Spinning, DataTooLong, EndOfStream})"
    if a: "conn_inv s \<and> unread s = l @ NUL # rest \<and> NL \<notin> set l"
  proof -
    from a have nl: "NL \<notin> set l" and u: "unread s = l @ NUL # rest" by simp_all
    have nh: "\<not> has_line (take MSG_BUF_SIZE (unread s))"
      unfolding u using nl by (rule nul_blocks_line)
    have ne: "unread s \<noteq> []" using a by simp
    have fr: "frame L (wsched s) (unread s) =
        ([], if MSG_BUF_SIZE \<le> length (unread s) then {DataTooLong} else {EndOfStream, Spinning})"
      using frame_stop[OF nh, of L "wsched s"] ne by simp
    obtain s' e where rl: "request_loop L s = (s', e)" by (cases "request_loop L s")
    from a have inv: "conn_inv s" by simp
    note rf = request_loop_frames[OF inv rl]
    have tr: "trace s' = trace s"
    proof (cases "e = ReadFailed")
      case True
      with rf fr show ?thesis by auto
    next
      case False
      with rf fr show ?thesis by simp
    qed
    have ex: "e \<noteq> ReadFailed \<longrightarrow> e \<in> {Spinning, DataTooLong, EndOfStream}"
      using rf fr by (auto split: if_splits)
    have er: "ReadErr \<notin> set (sched s) \<longrightarrow> e \<noteq> ReadFailed" using rf by auto
    show ?thesis using rl tr ex er by auto
  qed
  show ?thesis using A B by blast
qed

theorem embedded_nul_never_dispatched_witness:
  "scan_newline (''ab'' @ NUL # ''c'' @ [NL]) 5 0 = (2, False)
   \<and> trace (fst (request_loop test_platform
        (conn_start idle_server (''wind,1'' @ NUL # '',2'' @ [NL]) [] True []))) = []
   \<and> snd (request_loop test_platform
        (conn_start idle_server (''wind,1'' @ NUL # '',2'' @ [NL]) [] True []))
       \<in> {Spinning, DataTooLong, EndOfStream}"
proof -
  let ?b = "''ab'' @ NUL # ''c'' @ [NL]"
  let ?t = "conn_start idle_server (''wind,1'' @ NUL # '',2'' @ [NL]) [] True []"
  have h: "5 \<le> length ?b \<and> (2::nat) < 5 \<and> ?b ! 2 = NUL \<and> (\<forall>k<2. ?b ! k \<noteq> NL)"
    by (simp add: less_Suc_eq numeral_2_eq_2)
  have "snd (scan_newline ?b 5 0) = False \<and> fst (scan_newline ?b 5 0) \<le> 2
      \<and> ?b ! fst (scan_newline ?b 5 0) = NUL"
    using embedded_nul_never_dispatched[of 5 ?b 2] h by blast
  moreover have "?b ! k = NUL \<Longrightarrow> k \<le> 2 \<Longrightarrow> k = 2" for k
    by (cases k; simp; cases "k - 1"; simp)
  ultimately have sc: "scan_newline ?b 5 0 = (2, False)"
    by (cases "scan_newline ?b 5 0") auto
  have inv: "conn_inv ?t" by (rule conn_inv_start) (simp add: idle_server_def)
  have st: "trace ?t = []" "ReadErr \<notin> set (sched ?t)"
    by (simp_all add: conn_start_def idle_server_def)
  have u: "unread ?t = ''wind,1'' @ NUL # '',2'' @ [NL]" by (rule unread_start)
  have nl: "NL \<notin> set ''wind,1''" by simp
  have "trace (fst (request_loop test_platform ?t)) = trace ?t
      \<and> snd (request_loop test_platform ?t) \<in> {Spinning, DataTooLong, EndOfStream}"
    using embedded_nul_never_dispatched[of _ _ _ ?t "''wind,1''" "'',2'' @ [NL]" test_platform]
      inv u nl st(2) by blast
  then show ?thesis using sc unfolding st(1) by simp
qed




end
